theory Spec2Isabelle
  imports Main "HOL-Library.FSet" "HOL-Library.Word"
begin

section \<open>Formatting of counters\<close>

text \<open>
  \<^verbatim>\<open>fmt.Sprintf("%s%d", prefix, counter)\<close> prints the counter in decimal: a minus sign
  for a negative value, then the digits without leading zeros. \<open>itoa\<close> prints an
  integer of any size; the allocator applies it to the value of a counter.
\<close>

definition digit_char :: "nat \<Rightarrow> char" where
  "digit_char d = ''0123456789'' ! d"

fun digits :: "nat \<Rightarrow> string" where
  "digits n = (if n < 10 then [digit_char n] else digits (n div 10) @ [digit_char (n mod 10)])"

declare digits.simps [simp del]

definition itoa :: "int \<Rightarrow> string" where
  "itoa i = (if i < 0 then CHR ''-'' # digits (nat (- i)) else digits (nat i))"

text \<open>Reading a digit string back, used to show that printing is injective.\<close>

definition digit_val :: "char \<Rightarrow> nat" where
  "digit_val c = of_char c - 48"

definition undigits :: "string \<Rightarrow> nat" where
  "undigits s = foldl (\<lambda>acc c. acc * 10 + digit_val c) 0 s"

section \<open>The name allocator\<close>

text \<open>
  \<^verbatim>\<open>reserved\<close> is a Go map used as a set; a Go map is finite, so it is a finite set
  here. The function mutates the map it is given: the model returns the updated set
  next to the two results of the source.

  \<^verbatim>\<open>counter\<close> is a Go \<^verbatim>\<open>int\<close>, a 64-bit integer in two's complement: \<^verbatim>\<open>counter++\<close> and
  \<^verbatim>\<open>counter + 1\<close> wrap from \<open>2^63 - 1\<close> to \<open>- 2^63\<close> without a panic. In
  \<open>newName64\<close> the counter is a 64-bit word, \<open>+\<close> wraps, and \<open>sint\<close> is the signed
  value that \<^verbatim>\<open>%d\<close> prints. The loop \<^verbatim>\<open>for { ... }\<close> has no bound: when every probe
  finds its name reserved it does not return, which is the value \<open>None\<close>.
\<close>

partial_function (option) newName64 ::
  "string \<Rightarrow> 64 word \<Rightarrow> string fset \<Rightarrow> (string \<times> 64 word \<times> string fset) option" where
  "newName64 prefix counter reserved =
     (let name = prefix @ itoa (sint counter) in
      if name |\<notin>| reserved then Some (name, counter + 1, finsert name reserved)
      else newName64 prefix (counter + 1) reserved)"

text \<open>
  \<open>newName\<close> is the same loop over the unbounded integers, where it always returns.
  \<^verbatim>\<open>Normalize\<close> starts the counter at 1 and every probe adds one to it, so the counter
  of a run of \<^verbatim>\<open>Normalize\<close> wraps only after \<open>2^63 - 1\<close> probes; the sections on
  \<^verbatim>\<open>Normalize\<close> use \<open>newName\<close>. The two functions return the same name and the same
  reserved set, and counters that are the same 64-bit value, as long as the counter
  returned is at most \<open>2^63\<close> (lemma \<open>newName64_newName\<close> below).
\<close>

lemma digit_cases: "d < 10 \<Longrightarrow> d \<in> {0, 1, 2, 3, 4, 5, 6, 7, 8, 9 :: nat}"
  by auto

lemma digit_val_digit_char: "d < 10 \<Longrightarrow> digit_val (digit_char d) = d"
  using digit_cases [of d] by (auto simp: digit_val_def digit_char_def)

lemma undigits_snoc: "undigits (s @ [c]) = undigits s * 10 + digit_val c"
  by (simp add: undigits_def)

lemma undigits_digits: "undigits (digits n) = n"
proof (induction n rule: digits.induct)
  case (1 n)
  show ?case
  proof (cases "n < 10")
    case True
    then show ?thesis
      by (subst digits.simps) (simp add: undigits_def digit_val_digit_char)
  next
    case False
    with "1" have "undigits (digits (n div 10)) = n div 10" by simp
    with False show ?thesis
      by (subst digits.simps) (simp add: undigits_snoc digit_val_digit_char)
  qed
qed

lemma digits_inj: "digits m = digits n \<Longrightarrow> m = n"
  by (metis undigits_digits)

lemma digits_not_Nil: "digits n \<noteq> []"
  by (subst digits.simps) simp

lemma digit_char_not_minus: "d < 10 \<Longrightarrow> digit_char d \<noteq> CHR ''-''"
  using digit_cases [of d] by (auto simp: digit_char_def)

lemma hd_digits_not_minus: "hd (digits n) \<noteq> CHR ''-''"
proof (induction n rule: digits.induct)
  case (1 n)
  show ?case
  proof (cases "n < 10")
    case True
    then show ?thesis by (subst digits.simps) (simp add: digit_char_not_minus)
  next
    case False
    with "1" have "hd (digits (n div 10)) \<noteq> CHR ''-''" by simp
    with False show ?thesis
      by (subst digits.simps) (simp add: digits_not_Nil)
  qed
qed

lemma itoa_inj: "itoa i = itoa j \<Longrightarrow> i = j"
proof -
  assume e: "itoa i = itoa j"
  have neg: "\<And>a b. CHR ''-'' # digits a \<noteq> digits b"
    by (metis hd_digits_not_minus list.sel(1))
  show "i = j"
  proof (cases "i < 0")
    case True
    show ?thesis
    proof (cases "j < 0")
      case True
      with \<open>i < 0\<close> e have "nat (- i) = nat (- j)"
        by (auto simp: itoa_def dest: digits_inj)
      with True \<open>i < 0\<close> show ?thesis by simp
    next
      case False
      with \<open>i < 0\<close> e neg show ?thesis by (auto simp: itoa_def)
    qed
  next
    case False
    show ?thesis
    proof (cases "j < 0")
      case True
      with False e neg [of "nat (- j)" "nat i"] show ?thesis by (auto simp: itoa_def)
    next
      case False
      with \<open>\<not> i < 0\<close> e have "nat i = nat j"
        by (auto simp: itoa_def dest: digits_inj)
      with False \<open>\<not> i < 0\<close> show ?thesis by simp
    qed
  qed
qed

lemma name_inj: "prefix @ itoa i = prefix @ itoa j \<Longrightarrow> i = j"
  by (simp add: itoa_inj)

lemma finite_probes: "finite {k. prefix @ itoa k |\<in>| reserved}"
proof -
  have "inj (\<lambda>k. prefix @ itoa k)"
    by (rule injI) (rule name_inj)
  then have "finite ((\<lambda>k. prefix @ itoa k) -` fset reserved)"
    by (intro finite_vimageI) simp_all
  then show ?thesis by (simp add: vimage_def)
qed

function newName :: "string \<Rightarrow> int \<Rightarrow> string fset \<Rightarrow> string \<times> int \<times> string fset" where
  "newName prefix counter reserved =
     (let name = prefix @ itoa counter in
      if name |\<notin>| reserved then (name, counter + 1, finsert name reserved)
      else newName prefix (counter + 1) reserved)"
  by pat_completeness auto
termination
proof (relation "measure (\<lambda>(prefix, counter, reserved).
    card {k. counter \<le> k \<and> prefix @ itoa k |\<in>| reserved})")
  show "wf (measure (\<lambda>(prefix, counter, reserved).
    card {k. counter \<le> k \<and> prefix @ itoa k |\<in>| reserved}))"
    by simp
next
  fix prefix :: string and counter :: int and reserved :: "string fset" and x :: string
  assume x: "x = prefix @ itoa counter" and "\<not> x |\<notin>| reserved"
  then have mem: "prefix @ itoa counter |\<in>| reserved" by simp
  let ?A = "{k. counter + 1 \<le> k \<and> prefix @ itoa k |\<in>| reserved}"
  let ?B = "{k. counter \<le> k \<and> prefix @ itoa k |\<in>| reserved}"
  have fin: "finite ?B"
    by (rule finite_subset [OF _ finite_probes [of "prefix" reserved]]) auto
  have "counter \<in> ?B" "counter \<notin> ?A" "?A \<subseteq> ?B" using mem by auto
  then have "?A \<subset> ?B" by blast
  then have "card ?A < card ?B" using fin by (rule psubset_card_mono [rotated])
  then show "((prefix, counter + 1, reserved), (prefix, counter, reserved))
    \<in> measure (\<lambda>(prefix, counter, reserved).
        card {k. counter \<le> k \<and> prefix @ itoa k |\<in>| reserved})"
    by simp
qed

declare newName.simps [simp del]

section \<open>The syntax tree\<close>

text \<open>
  Modelled from the spec: the node types of the syntax tree are declared outside
  \<^verbatim>\<open>normalizer.go\<close>. The spec names the variants the pass looks at: a literal with its
  kind and raw bytes (\<^verbatim>\<open>SQLVal\<close>, of kind string, integer, float, placeholder
  \<^verbatim>\<open>ValArg\<close>, or another kind left opaque), a comparison with its operator and its two
  operands, a tuple of expressions, and a list placeholder (\<^verbatim>\<open>ListArg\<close>, the bytes
  \<^verbatim>\<open>::name\<close>). Every other node kind is \<open>Other\<close>: a label and the children the
  traversal descends into. A tree is a value here, so no node is shared between two
  places and no pointer is nil; the graph of objects below lifts both limits.
\<close>

datatype ValType = StrVal | IntVal | FloatVal | ValArg | OtherVal nat

datatype SQLNode =
    SQLVal ValType string
  | ComparisonExpr string SQLNode SQLNode
  | ValTuple "SQLNode list"
  | ListArg string
  | Other string "SQLNode list"

type_synonym Statement = SQLNode

text \<open>
  Modelled from the spec: the operator constants \<^verbatim>\<open>InStr\<close> and \<^verbatim>\<open>NotInStr\<close> (the
  operators IN and NOT IN) are declared outside \<^verbatim>\<open>normalizer.go\<close>.
\<close>

definition InStr :: string where
  "InStr = ''in''"

definition NotInStr :: string where
  "NotInStr = ''not in''"

section \<open>Typed values\<close>

text \<open>
  Modelled from the spec: the typed-value subsystem (\<^verbatim>\<open>sqltypes\<close>, \<^verbatim>\<open>querypb\<close>) is not
  under \<^verbatim>\<open>src/\<close>. The source reads the fields \<^verbatim>\<open>Type\<close>, \<^verbatim>\<open>Value\<close> and \<^verbatim>\<open>Values\<close> of a
  bind variable and builds list elements from \<^verbatim>\<open>Type\<close> and \<^verbatim>\<open>Value\<close>. A value is its
  kind tag and the bytes it was built from; a list value has the tag \<^verbatim>\<open>Type_TUPLE\<close> and
  its elements in \<^verbatim>\<open>Values\<close>.
\<close>

datatype querypb_Type = VarBinary | Int64 | Float64 | Type_TUPLE

record pbValue =
  Type :: querypb_Type
  Value :: string

record BindVariable = pbValue +
  Values :: "pbValue list"

text \<open>
  Modelled from the spec: an integer literal converts when its raw text is decimal text of
  a 64-bit signed integer: an optional sign, at least one digit, only digits, and a value
  from \<open>- 2^63\<close> to \<open>2^63 - 1\<close>.
\<close>

definition is_digit :: "char \<Rightarrow> bool" where
  "is_digit c = (c \<in> set ''0123456789'')"

definition ParseInt :: "string \<Rightarrow> int option" where
  "ParseInt s =
     (let (neg, ds) = (case s of
                         [] \<Rightarrow> (False, s)
                       | c # r \<Rightarrow> if c = CHR ''-'' then (True, r)
                                  else if c = CHR ''+'' then (False, r) else (False, s));
          n = int (undigits ds);
          i = (if neg then - n else n)
      in if ds = [] \<or> \<not> list_all is_digit ds then None
         else if - (2 ^ 63) \<le> i \<and> i < 2 ^ 63 then Some i else None)"

text \<open>
  Modelled from the spec: \<^verbatim>\<open>sqltypes.NewValue(typ, val)\<close> builds a value of the given
  kind from raw bytes or reports an error (\<open>None\<close>). The opaque byte-string kind takes
  the bytes verbatim and never fails; the integer kind fails when the text does not parse
  as a 64-bit signed decimal integer; the float kind fails when the text does not parse as a
  64-bit float. The float parser is the parameter \<open>ParseFloat\<close> (its result type \<open>'f\<close>
  stands for the 64-bit floats): every theorem below holds for every such parser. No
  scalar value has the list tag.
\<close>

definition NewValue :: "(string \<Rightarrow> 'f option) \<Rightarrow> querypb_Type \<Rightarrow> string \<Rightarrow> pbValue option" where
  "NewValue ParseFloat t v =
     (case t of
        VarBinary \<Rightarrow> Some \<lparr>Type = t, Value = v\<rparr>
      | Int64 \<Rightarrow> (case ParseInt v of None \<Rightarrow> None | Some _ \<Rightarrow> Some \<lparr>Type = t, Value = v\<rparr>)
      | Float64 \<Rightarrow> (case ParseFloat v of None \<Rightarrow> None | Some _ \<Rightarrow> Some \<lparr>Type = t, Value = v\<rparr>)
      | Type_TUPLE \<Rightarrow> None)"

text \<open>
  Modelled from the spec: \<^verbatim>\<open>sqltypes.ValueBindVariable\<close> wraps a scalar value as a bind
  variable (no list elements).
\<close>

definition ValueBindVariable :: "pbValue \<Rightarrow> BindVariable" where
  "ValueBindVariable v = \<lparr>Type = Type v, Value = Value v, Values = []\<rparr>"

text \<open>
  \<^verbatim>\<open>sqlToBindvar\<close>: \<open>None\<close> is the \<^verbatim>\<open>nil\<close> result. The inner \<open>case\<close> is the
  \<^verbatim>\<open>switch node.Type\<close> (its \<open>None\<close> the \<^verbatim>\<open>default: return nil\<close>), the outer one the
  test \<^verbatim>\<open>err != nil\<close>.
\<close>

definition sqlToBindvar :: "(string \<Rightarrow> 'f option) \<Rightarrow> SQLNode \<Rightarrow> BindVariable option" where
  "sqlToBindvar ParseFloat node =
     (case node of
        SQLVal t v \<Rightarrow>
          (case (case t of
                   StrVal \<Rightarrow> Some (NewValue ParseFloat VarBinary v)
                 | IntVal \<Rightarrow> Some (NewValue ParseFloat Int64 v)
                 | FloatVal \<Rightarrow> Some (NewValue ParseFloat Float64 v)
                 | _ \<Rightarrow> None) of
             None \<Rightarrow> None
           | Some None \<Rightarrow> None
           | Some (Some v') \<Rightarrow> Some (ValueBindVariable v'))
      | _ \<Rightarrow> None)"

section \<open>The traversal\<close>

text \<open>
  A callback of \<^verbatim>\<open>Walk\<close> is a Go closure \<^verbatim>\<open>func(node SQLNode) (kontinue bool, err error)\<close>
  that may change the node it is given and the variables it captures. Here it takes the
  node and the captured state and returns the two results of the source together with the
  node as it left it and the new state. A Go slice expression out of range panics; the
  panic unwinds through \<^verbatim>\<open>Walk\<close> and its caller, and is the result \<open>Inl\<close>. A tree
  and a map are values here and are never nil: the panics of Go on a nil node pointer
  and on an assignment to a nil map have no counterpart, and no statement below is about
  such inputs.
\<close>

datatype fault = SliceBoundsOutOfRange

type_synonym error = string

type_synonym 's Visit = "SQLNode \<Rightarrow> 's \<Rightarrow> fault + (bool \<times> error option \<times> SQLNode \<times> 's)"

fun children :: "SQLNode \<Rightarrow> SQLNode list" where
  "children (ComparisonExpr operator left right) = [left, right]"
| "children (ValTuple exprs) = exprs"
| "children (Other kind nodes) = nodes"
| "children (SQLVal t v) = []"
| "children (ListArg v) = []"

fun with_children :: "SQLNode \<Rightarrow> SQLNode list \<Rightarrow> SQLNode" where
  "with_children (ComparisonExpr operator _ _) [left, right] = ComparisonExpr operator left right"
| "with_children (ValTuple _) exprs = ValTuple exprs"
| "with_children (Other kind _) nodes = Other kind nodes"
| "with_children node _ = node"

text \<open>
  Modelled from the spec: \<^verbatim>\<open>Walk(visit, nodes...)\<close> is not under \<^verbatim>\<open>src/\<close>. It is the
  depth-first, pre-order traversal of every reachable node: the callback sees a node
  before the node's children, the children walked are those the node has after the
  callback ran (the callback replaces in place), and the nodes are taken from left to
  right. An error of the callback stops the walk and is returned; a false \<open>kontinue\<close>
  skips the children of the node. A callback may grow the tree it walks, so the walk of
  an arbitrary callback need not return: not returning is the value \<open>None\<close>. The
  result holds the nodes as the walk left them and the final state of the callback.
\<close>

partial_function (option) Walk ::
  "'s Visit \<Rightarrow> SQLNode list \<Rightarrow> 's \<Rightarrow> (fault + (error option \<times> SQLNode list \<times> 's)) option" where
  "Walk visit nodes s =
     (case nodes of
        [] \<Rightarrow> Some (Inr (None, [], s))
      | node # rest \<Rightarrow>
          (case visit node s of
             Inl f \<Rightarrow> Some (Inl f)
           | Inr (kontinue, err, node', s1) \<Rightarrow>
               (case err of
                  Some e \<Rightarrow> Some (Inr (Some e, node' # rest, s1))
                | None \<Rightarrow>
                    Option.bind
                      (if kontinue then Walk visit (children node') s1
                       else Some (Inr (None, children node', s1)))
                      (\<lambda>sub. case sub of
                         Inl f \<Rightarrow> Some (Inl f)
                       | Inr (err2, cs, s2) \<Rightarrow>
                           (case err2 of
                              Some e \<Rightarrow> Some (Inr (Some e, with_children node' cs # rest, s2))
                            | None \<Rightarrow>
                                Option.bind (Walk visit rest s2)
                                  (\<lambda>tl. case tl of
                                     Inl f \<Rightarrow> Some (Inl f)
                                   | Inr (err3, rest', s3) \<Rightarrow>
                                       Some (Inr (err3, with_children node' cs # rest', s3))))))))"

section \<open>The scanner for existing placeholders\<close>

text \<open>
  The callback of \<^verbatim>\<open>GetBindvars\<close>. \<^verbatim>\<open>node.Val[1:]\<close> panics on an empty \<^verbatim>\<open>Val\<close> and
  \<^verbatim>\<open>node[2:]\<close> on fewer than two bytes. The captured state is the map \<^verbatim>\<open>bindvars\<close>, a
  set of names.
\<close>

definition GetBindvars_visit :: "(string fset) Visit" where
  "GetBindvars_visit node bindvars =
     (case node of
        SQLVal t v \<Rightarrow>
          (if t = ValArg then
             (if length v < 1 then Inl SliceBoundsOutOfRange
              else Inr (True, None, node, finsert (drop 1 v) bindvars))
           else Inr (True, None, node, bindvars))
      | ListArg v \<Rightarrow>
          (if length v < 2 then Inl SliceBoundsOutOfRange
           else Inr (True, None, node, finsert (drop 2 v) bindvars))
      | _ \<Rightarrow> Inr (True, None, node, bindvars))"

text \<open>
  \<^verbatim>\<open>GetBindvars\<close> drops the error of \<^verbatim>\<open>Walk\<close> and returns the map. The model returns
  the statement as the walk left it as well, so that a theorem can say that the scan
  changes nothing.
\<close>

definition GetBindvars :: "Statement \<Rightarrow> (fault + (SQLNode list \<times> string fset)) option" where
  "GetBindvars stmt =
     (case Walk GetBindvars_visit [stmt] {||} of
        None \<Rightarrow> None
      | Some (Inl f) \<Rightarrow> Some (Inl f)
      | Some (Inr (_, nodes, bindvars)) \<Rightarrow> Some (Inr (nodes, bindvars)))"

section \<open>Normalize\<close>

text \<open>
  The variables the callback of \<^verbatim>\<open>Normalize\<close> captures: the reserved names, the counter,
  the map \<^verbatim>\<open>vals\<close> from a value key to the name given to it, and the caller's map
  \<^verbatim>\<open>bindVars\<close>.
\<close>

record nstate =
  reserved :: "string fset"
  counter :: int
  vals :: "string \<rightharpoonup> string"
  bindVars :: "string \<rightharpoonup> BindVariable"

text \<open>
  The loop over the tuple: \<open>None\<close> is the early \<^verbatim>\<open>return true, nil\<close> at the first
  element that does not convert.
\<close>

fun tuple_values :: "(string \<Rightarrow> 'f option) \<Rightarrow> SQLNode list \<Rightarrow> pbValue list \<Rightarrow> pbValue list option" where
  "tuple_values ParseFloat [] acc = Some acc"
| "tuple_values ParseFloat (v # rest) acc =
     (case sqlToBindvar ParseFloat v of
        None \<Rightarrow> None
      | Some bval \<Rightarrow> tuple_values ParseFloat rest (acc @ [\<lparr>Type = Type bval, Value = Value bval\<rparr>]))"

text \<open>The key under which a converted literal is looked up in \<^verbatim>\<open>vals\<close>.\<close>

definition dedup_key :: "BindVariable \<Rightarrow> string \<Rightarrow> string" where
  "dedup_key bval v = (if Type bval = VarBinary then CHR 0x27 # v else v)"

definition Normalize_visit :: "(string \<Rightarrow> 'f option) \<Rightarrow> string \<Rightarrow> nstate Visit" where
  "Normalize_visit ParseFloat prefix node st =
     (case node of
        SQLVal t v \<Rightarrow>
          (case sqlToBindvar ParseFloat node of
             None \<Rightarrow> Inr (True, None, node, st)
           | Some bval \<Rightarrow>
               (let key = dedup_key bval v in
                case vals st key of
                  Some bvname \<Rightarrow> Inr (True, None, SQLVal ValArg (CHR '':'' # bvname), st)
                | None \<Rightarrow>
                    (case newName prefix (counter st) (reserved st) of
                       (bvname, counter', reserved') \<Rightarrow>
                         Inr (True, None, SQLVal ValArg (CHR '':'' # bvname),
                              st\<lparr>reserved := reserved', counter := counter',
                                vals := (vals st)(key \<mapsto> bvname),
                                bindVars := (bindVars st)(bvname \<mapsto> bval)\<rparr>))))
      | ComparisonExpr operator left right \<Rightarrow>
          (if operator \<noteq> InStr \<and> operator \<noteq> NotInStr then Inr (True, None, node, st)
           else
             (case right of
                ValTuple tupleVals \<Rightarrow>
                  (case tuple_values ParseFloat tupleVals [] of
                     None \<Rightarrow> Inr (True, None, node, st)
                   | Some bvalues \<Rightarrow>
                       (case newName prefix (counter st) (reserved st) of
                          (bvname, counter', reserved') \<Rightarrow>
                            Inr (True, None, ComparisonExpr operator left (ListArg (''::'' @ bvname)),
                                 st\<lparr>reserved := reserved', counter := counter',
                                   bindVars := (bindVars st)(bvname \<mapsto>
                                      \<lparr>Type = Type_TUPLE, Value = [], Values = bvalues\<rparr>)\<rparr>)))
              | _ \<Rightarrow> Inr (True, None, node, st)))
      | _ \<Rightarrow> Inr (True, None, node, st))"

text \<open>
  \<^verbatim>\<open>Normalize\<close> up to the end of its walk: the result of \<^verbatim>\<open>Walk\<close> with the final values
  of the captured variables.
\<close>

definition Normalize_run ::
  "(string \<Rightarrow> 'f option) \<Rightarrow> Statement \<Rightarrow> (string \<rightharpoonup> BindVariable) \<Rightarrow> string
     \<Rightarrow> (fault + (error option \<times> SQLNode list \<times> nstate)) option" where
  "Normalize_run ParseFloat stmt bindVars0 prefix =
     (case GetBindvars stmt of
        None \<Rightarrow> None
      | Some (Inl f) \<Rightarrow> Some (Inl f)
      | Some (Inr (_, reserved0)) \<Rightarrow>
          Walk (Normalize_visit ParseFloat prefix) [stmt]
            \<lparr>reserved = reserved0, counter = 1, vals = Map.empty, bindVars = bindVars0\<rparr>)"

text \<open>
  \<^verbatim>\<open>Normalize\<close> has no result: it drops the error of \<^verbatim>\<open>Walk\<close> (\<^verbatim>\<open>_ = Walk(...)\<close>) and
  leaves its effects in the statement and in the caller's map, which the model returns.
  A panic (\<open>Inl\<close>) reaches the caller.
\<close>

definition Normalize ::
  "(string \<Rightarrow> 'f option) \<Rightarrow> Statement \<Rightarrow> (string \<rightharpoonup> BindVariable) \<Rightarrow> string
     \<Rightarrow> (fault + (SQLNode list \<times> (string \<rightharpoonup> BindVariable))) option" where
  "Normalize ParseFloat stmt bindVars0 prefix =
     (case Normalize_run ParseFloat stmt bindVars0 prefix of
        None \<Rightarrow> None
      | Some (Inl f) \<Rightarrow> Some (Inl f)
      | Some (Inr (_, nodes, st)) \<Rightarrow> Some (Inr (nodes, bindVars st)))"

text \<open>
  \<^verbatim>\<open>Walk\<close> is not under \<^verbatim>\<open>src/\<close>. \<open>Normalize_over\<close> is \<^verbatim>\<open>Normalize\<close> with the
  traversal of its rewriting pass as a parameter: it calls the traversal with its callback
  and the statement, drops the error that the traversal returns, and returns.
  \<open>Normalize\<close> is \<open>Normalize_over Walk\<close> (lemma \<open>Normalize_over_Walk\<close> below).
\<close>

type_synonym 's Traversal =
  "'s Visit \<Rightarrow> SQLNode list \<Rightarrow> 's \<Rightarrow> (fault + (error option \<times> SQLNode list \<times> 's)) option"

definition Normalize_over ::
  "nstate Traversal \<Rightarrow> (string \<Rightarrow> 'f option) \<Rightarrow> Statement \<Rightarrow> (string \<rightharpoonup> BindVariable) \<Rightarrow> string
     \<Rightarrow> (fault + (SQLNode list \<times> (string \<rightharpoonup> BindVariable))) option" where
  "Normalize_over walk ParseFloat stmt bindVars0 prefix =
     (case GetBindvars stmt of
        None \<Rightarrow> None
      | Some (Inl f) \<Rightarrow> Some (Inl f)
      | Some (Inr (_, reserved0)) \<Rightarrow>
          (case walk (Normalize_visit ParseFloat prefix) [stmt]
                  \<lparr>reserved = reserved0, counter = 1, vals = Map.empty, bindVars = bindVars0\<rparr> of
             None \<Rightarrow> None
           | Some (Inl f) \<Rightarrow> Some (Inl f)
           | Some (Inr (_, nodes, st)) \<Rightarrow> Some (Inr (nodes, bindVars st))))"

section \<open>The statement as a graph of objects\<close>

text \<open>
  Modelled from the spec: the node types are declared outside \<^verbatim>\<open>normalizer.go\<close>. The
  source matches a node against the pointer types \<^verbatim>\<open>*SQLVal\<close> and \<^verbatim>\<open>*ComparisonExpr\<close> and
  assigns to the fields of the object behind the pointer (\<^verbatim>\<open>node.Type\<close>, \<^verbatim>\<open>node.Val\<close>,
  \<^verbatim>\<open>node.Right\<close>); \<^verbatim>\<open>ValTuple\<close> and \<^verbatim>\<open>ListArg\<close> are values (a slice of expressions and
  a byte string). A tree value cannot say that one object stands at two places of a
  statement, or that a pointer is nil. In this second model a statement is an expression
  over addresses, and a heap holds the objects: the kind and the bytes of a literal, and
  the operator and the two operands of a comparison. An address that holds no object is a
  nil pointer. Every other node kind is a label with its children, as in the tree.
\<close>

type_synonym addr = nat

datatype Expr =
    ValRef addr
  | CmpRef addr
  | TupleOf "Expr list"
  | ListArgOf string
  | OtherOf string "Expr list"

record heap =
  sqlvals :: "addr \<rightharpoonup> ValType \<times> string"
  comparisons :: "addr \<rightharpoonup> string \<times> Expr \<times> Expr"

text \<open>
  A callback on the graph takes the node, the heap and the captured state, and returns
  the two results of the source with the heap and the state as it left them. A panic is
  the result \<open>Inl\<close>: that of a slice expression, as before, and that of a field access
  through a nil pointer.
\<close>

datatype panic = NilPointerDereference | SlicePanic fault

type_synonym 's HVisit = "Expr \<Rightarrow> heap \<Rightarrow> 's \<Rightarrow> panic + (bool \<times> error option \<times> heap \<times> 's)"

text \<open>
  Modelled from the spec: \<^verbatim>\<open>Walk\<close> on the graph is the traversal of the tree model, with
  the children of a comparison read from its object after the callback ran. A nil
  comparison has no children to walk. The callback changes objects in place, so the walk
  returns the heap and no nodes. The graph may hold a comparison that is its own operand:
  a walk that does not return is the value \<open>None\<close>.
\<close>

definition hchildren :: "heap \<Rightarrow> Expr \<Rightarrow> Expr list" where
  "hchildren h e =
     (case e of
        CmpRef a \<Rightarrow> (case comparisons h a of None \<Rightarrow> [] | Some (operator, left, right) \<Rightarrow> [left, right])
      | TupleOf exprs \<Rightarrow> exprs
      | OtherOf kind nodes \<Rightarrow> nodes
      | _ \<Rightarrow> [])"

partial_function (option) Walk_heap ::
  "'s HVisit \<Rightarrow> Expr list \<Rightarrow> heap \<Rightarrow> 's \<Rightarrow> (panic + (error option \<times> heap \<times> 's)) option" where
  "Walk_heap visit nodes h s =
     (case nodes of
        [] \<Rightarrow> Some (Inr (None, h, s))
      | node # rest \<Rightarrow>
          (case visit node h s of
             Inl p \<Rightarrow> Some (Inl p)
           | Inr (kontinue, err, h1, s1) \<Rightarrow>
               (case err of
                  Some e \<Rightarrow> Some (Inr (Some e, h1, s1))
                | None \<Rightarrow>
                    Option.bind
                      (if kontinue then Walk_heap visit (hchildren h1 node) h1 s1
                       else Some (Inr (None, h1, s1)))
                      (\<lambda>sub. case sub of
                         Inl p \<Rightarrow> Some (Inl p)
                       | Inr (err2, h2, s2) \<Rightarrow>
                           (case err2 of
                              Some e \<Rightarrow> Some (Inr (Some e, h2, s2))
                            | None \<Rightarrow> Walk_heap visit rest h2 s2)))))"

text \<open>
  The callback of \<^verbatim>\<open>GetBindvars\<close> and \<^verbatim>\<open>GetBindvars\<close> on the graph. \<^verbatim>\<open>node.Type\<close>
  panics on a nil \<^verbatim>\<open>*SQLVal\<close>.
\<close>

definition GetBindvars_heap_visit :: "(string fset) HVisit" where
  "GetBindvars_heap_visit node h bindvars =
     (case node of
        ValRef a \<Rightarrow>
          (case sqlvals h a of
             None \<Rightarrow> Inl NilPointerDereference
           | Some (t, v) \<Rightarrow>
               (if t = ValArg then
                  (if length v < 1 then Inl (SlicePanic SliceBoundsOutOfRange)
                   else Inr (True, None, h, finsert (drop 1 v) bindvars))
                else Inr (True, None, h, bindvars)))
      | ListArgOf v \<Rightarrow>
          (if length v < 2 then Inl (SlicePanic SliceBoundsOutOfRange)
           else Inr (True, None, h, finsert (drop 2 v) bindvars))
      | _ \<Rightarrow> Inr (True, None, h, bindvars))"

definition GetBindvars_heap :: "heap \<Rightarrow> Expr \<Rightarrow> (panic + (heap \<times> string fset)) option" where
  "GetBindvars_heap h stmt =
     (case Walk_heap GetBindvars_heap_visit [stmt] h {||} of
        None \<Rightarrow> None
      | Some (Inl p) \<Rightarrow> Some (Inl p)
      | Some (Inr (_, h', bindvars)) \<Rightarrow> Some (Inr (h', bindvars)))"

text \<open>
  \<^verbatim>\<open>sqlToBindvar\<close> on the graph reads the kind and the bytes of the object and converts
  them as before; the loop over the tuple calls it for each element.
\<close>

definition sqlToBindvar_heap :: "(string \<Rightarrow> 'f option) \<Rightarrow> heap \<Rightarrow> Expr \<Rightarrow> panic + BindVariable option" where
  "sqlToBindvar_heap ParseFloat h node =
     (case node of
        ValRef a \<Rightarrow>
          (case sqlvals h a of
             None \<Rightarrow> Inl NilPointerDereference
           | Some (t, v) \<Rightarrow> Inr (sqlToBindvar ParseFloat (SQLVal t v)))
      | _ \<Rightarrow> Inr None)"

fun tuple_values_heap ::
  "(string \<Rightarrow> 'f option) \<Rightarrow> heap \<Rightarrow> Expr list \<Rightarrow> pbValue list \<Rightarrow> panic + pbValue list option" where
  "tuple_values_heap ParseFloat h [] acc = Inr (Some acc)"
| "tuple_values_heap ParseFloat h (v # rest) acc =
     (case sqlToBindvar_heap ParseFloat h v of
        Inl p \<Rightarrow> Inl p
      | Inr None \<Rightarrow> Inr None
      | Inr (Some bval) \<Rightarrow>
          tuple_values_heap ParseFloat h rest (acc @ [\<lparr>Type = Type bval, Value = Value bval\<rparr>]))"

text \<open>
  The callback of \<^verbatim>\<open>Normalize\<close> on the graph: the same branches as on the tree, with
  the assignments \<^verbatim>\<open>node.Type = ValArg\<close>, \<^verbatim>\<open>node.Val = ...\<close> and \<^verbatim>\<open>node.Right = ...\<close> as
  updates of the object at the address of the node. \<^verbatim>\<open>node.Operator\<close> panics on a nil
  \<^verbatim>\<open>*ComparisonExpr\<close>. The caller's map is a map value, as in the tree model: a nil map,
  on which the first assignment panics, is not an input of this model either.
\<close>

definition Normalize_heap_visit :: "(string \<Rightarrow> 'f option) \<Rightarrow> string \<Rightarrow> nstate HVisit" where
  "Normalize_heap_visit ParseFloat prefix node h st =
     (case node of
        ValRef a \<Rightarrow>
          (case sqlvals h a of
             None \<Rightarrow> Inl NilPointerDereference
           | Some (t, v) \<Rightarrow>
               (case sqlToBindvar ParseFloat (SQLVal t v) of
                  None \<Rightarrow> Inr (True, None, h, st)
                | Some bval \<Rightarrow>
                    (let key = dedup_key bval v in
                     case vals st key of
                       Some bvname \<Rightarrow>
                         Inr (True, None,
                              h\<lparr>sqlvals := (sqlvals h)(a \<mapsto> (ValArg, CHR '':'' # bvname))\<rparr>, st)
                     | None \<Rightarrow>
                         (case newName prefix (counter st) (reserved st) of
                            (bvname, counter', reserved') \<Rightarrow>
                              Inr (True, None,
                                   h\<lparr>sqlvals := (sqlvals h)(a \<mapsto> (ValArg, CHR '':'' # bvname))\<rparr>,
                                   st\<lparr>reserved := reserved', counter := counter',
                                     vals := (vals st)(key \<mapsto> bvname),
                                     bindVars := (bindVars st)(bvname \<mapsto> bval)\<rparr>)))))
      | CmpRef a \<Rightarrow>
          (case comparisons h a of
             None \<Rightarrow> Inl NilPointerDereference
           | Some (operator, left, right) \<Rightarrow>
               (if operator \<noteq> InStr \<and> operator \<noteq> NotInStr then Inr (True, None, h, st)
                else
                  (case right of
                     TupleOf tupleVals \<Rightarrow>
                       (case tuple_values_heap ParseFloat h tupleVals [] of
                          Inl p \<Rightarrow> Inl p
                        | Inr None \<Rightarrow> Inr (True, None, h, st)
                        | Inr (Some bvalues) \<Rightarrow>
                            (case newName prefix (counter st) (reserved st) of
                               (bvname, counter', reserved') \<Rightarrow>
                                 Inr (True, None,
                                      h\<lparr>comparisons := (comparisons h)
                                           (a \<mapsto> (operator, left, ListArgOf (''::'' @ bvname)))\<rparr>,
                                      st\<lparr>reserved := reserved', counter := counter',
                                        bindVars := (bindVars st)(bvname \<mapsto>
                                           \<lparr>Type = Type_TUPLE, Value = [], Values = bvalues\<rparr>)\<rparr>)))
                   | _ \<Rightarrow> Inr (True, None, h, st))))
      | _ \<Rightarrow> Inr (True, None, h, st))"

definition Normalize_heap ::
  "(string \<Rightarrow> 'f option) \<Rightarrow> heap \<Rightarrow> Expr \<Rightarrow> (string \<rightharpoonup> BindVariable) \<Rightarrow> string
     \<Rightarrow> (panic + (heap \<times> (string \<rightharpoonup> BindVariable))) option" where
  "Normalize_heap ParseFloat h stmt bindVars0 prefix =
     (case GetBindvars_heap h stmt of
        None \<Rightarrow> None
      | Some (Inl p) \<Rightarrow> Some (Inl p)
      | Some (Inr (h1, reserved0)) \<Rightarrow>
          (case Walk_heap (Normalize_heap_visit ParseFloat prefix) [stmt] h1
                  \<lparr>reserved = reserved0, counter = 1, vals = Map.empty, bindVars = bindVars0\<rparr> of
             None \<Rightarrow> None
           | Some (Inl p) \<Rightarrow> Some (Inl p)
           | Some (Inr (_, h2, st)) \<Rightarrow> Some (Inr (h2, bindVars st))))"

section \<open>Notions for the statements and their proofs\<close>

text \<open>
  A measure of a tree for the inductions below, and the walks of callbacks that always
  continue without an error, as both callbacks of the source do (each of their paths
  ends in \<^verbatim>\<open>return true, nil\<close>).
\<close>

fun nsize :: "SQLNode \<Rightarrow> nat" where
  "nsize (SQLVal t v) = 1"
| "nsize (ListArg v) = 1"
| "nsize (ComparisonExpr operator left right) = 1 + nsize left + nsize right"
| "nsize (ValTuple exprs) = 1 + sum_list (map nsize exprs)"
| "nsize (Other kind nodes) = 1 + sum_list (map nsize nodes)"

inductive walks :: "'s Visit \<Rightarrow> SQLNode list \<Rightarrow> 's \<Rightarrow> SQLNode list \<Rightarrow> 's \<Rightarrow> bool"
  for visit :: "'s Visit" where
  walks_Nil: "walks visit [] s [] s"
| walks_Cons: "visit n s = Inr (True, None, n', s1) \<Longrightarrow> walks visit (children n') s1 cs s2
     \<Longrightarrow> walks visit ns s2 ns' s3 \<Longrightarrow> walks visit (n # ns) s (with_children n' cs # ns') s3"

definition steady :: "'s Visit \<Rightarrow> bool" where
  "steady visit \<longleftrightarrow>
     (\<forall>n s. \<exists>n' s'. visit n s = Inr (True, None, n', s')
        \<and> sum_list (map nsize (children n')) \<le> sum_list (map nsize (children n)))"

text \<open>
  The placeholder names a tree refers to, in the spec's words: the names of the scalar
  placeholders \<^verbatim>\<open>:name\<close> and of the list placeholders \<^verbatim>\<open>::name\<close> anywhere in the tree,
  without their sigils.
\<close>

fun bindvar_names :: "SQLNode \<Rightarrow> string set" where
  "bindvar_names (SQLVal t v) = (if t = ValArg \<and> take 1 v = '':'' then {drop 1 v} else {})"
| "bindvar_names (ListArg v) = (if take 2 v = ''::'' then {drop 2 v} else {})"
| "bindvar_names (ComparisonExpr operator left right) = bindvar_names left \<union> bindvar_names right"
| "bindvar_names (ValTuple exprs) = (\<Union>e \<in> set exprs. bindvar_names e)"
| "bindvar_names (Other kind nodes) = (\<Union>n \<in> set nodes. bindvar_names n)"

text \<open>
  A tree is well encoded when every placeholder node carries its sigil, as the parser
  builds them; it is truncated when some placeholder node is too short to hold its sigil,
  which is where the slice expressions of the scanner panic. \<open>scanned\<close> is what the
  slice expressions cut out, whatever the first bytes are.
\<close>

fun well_encoded :: "SQLNode \<Rightarrow> bool" where
  "well_encoded (SQLVal t v) = (t \<noteq> ValArg \<or> take 1 v = '':'')"
| "well_encoded (ListArg v) = (take 2 v = ''::'')"
| "well_encoded (ComparisonExpr operator left right) = (well_encoded left \<and> well_encoded right)"
| "well_encoded (ValTuple exprs) = list_all well_encoded exprs"
| "well_encoded (Other kind nodes) = list_all well_encoded nodes"

fun truncated :: "SQLNode \<Rightarrow> bool" where
  "truncated (SQLVal t v) = (t = ValArg \<and> length v < 1)"
| "truncated (ListArg v) = (length v < 2)"
| "truncated (ComparisonExpr operator left right) = (truncated left \<or> truncated right)"
| "truncated (ValTuple exprs) = list_ex truncated exprs"
| "truncated (Other kind nodes) = list_ex truncated nodes"

fun scanned :: "SQLNode \<Rightarrow> string set" where
  "scanned (SQLVal t v) = (if t = ValArg then {drop 1 v} else {})"
| "scanned (ListArg v) = {drop 2 v}"
| "scanned (ComparisonExpr operator left right) = scanned left \<union> scanned right"
| "scanned (ValTuple exprs) = (\<Union>e \<in> set exprs. scanned e)"
| "scanned (Other kind nodes) = (\<Union>n \<in> set nodes. scanned n)"

text \<open>
  \<open>extends prefix s s'\<close>: what a later state \<open>s'\<close> of the captured variables keeps
  of an earlier state \<open>s\<close>.
\<close>

definition extends :: "string \<Rightarrow> nstate \<Rightarrow> nstate \<Rightarrow> bool" where
  "extends prefix s s' \<longleftrightarrow>
     reserved s |\<subseteq>| reserved s'
     \<and> counter s \<le> counter s'
     \<and> vals s \<subseteq>\<^sub>m vals s'
     \<and> (\<forall>nm. nm |\<in>| reserved s \<longrightarrow> bindVars s' nm = bindVars s nm)
     \<and> (\<forall>nm. nm |\<notin>| reserved s' \<longrightarrow> bindVars s' nm = bindVars s nm)
     \<and> (\<forall>nm. nm |\<in>| reserved s' \<and> nm |\<notin>| reserved s \<longrightarrow>
          (\<exists>k. counter s \<le> k \<and> k < counter s' \<and> nm = prefix @ itoa k) \<and> bindVars s' nm \<noteq> None)
     \<and> (\<forall>k. counter s \<le> k \<and> k < counter s' \<longrightarrow> prefix @ itoa k |\<in>| reserved s')
     \<and> (\<forall>key nm. vals s' key = Some nm \<and> vals s key = None \<longrightarrow>
          nm |\<in>| reserved s' \<and> nm |\<notin>| reserved s)"

text \<open>The conversion of the whole tuple of an IN or NOT IN comparison, when there is one.\<close>

definition list_rewrite :: "(string \<Rightarrow> 'f option) \<Rightarrow> string \<Rightarrow> SQLNode \<Rightarrow> pbValue list option" where
  "list_rewrite ParseFloat operator right =
     (if operator \<noteq> InStr \<and> operator \<noteq> NotInStr then None
      else case right of ValTuple tupleVals \<Rightarrow> tuple_values ParseFloat tupleVals [] | _ \<Rightarrow> None)"

text \<open>
  \<open>consistent s\<close>: every name in \<^verbatim>\<open>vals\<close> is reserved and bound to a scalar value with
  the key it stands for, and different keys have different names.
\<close>

definition consistent :: "nstate \<Rightarrow> bool" where
  "consistent s \<longleftrightarrow>
     (\<forall>key nm. vals s key = Some nm \<longrightarrow>
        nm |\<in>| reserved s
        \<and> (\<exists>b. bindVars s nm = Some b \<and> Values b = [] \<and> dedup_key b (Value b) = key))
     \<and> inj_on (vals s) (dom (vals s))"

text \<open>
  \<open>rewritten pf st n n'\<close> says, in the spec's words, how the node \<open>n'\<close> of the
  normalized statement comes from the node \<open>n\<close> of the original one, given the final
  state \<open>st\<close>: a literal that converts is the scalar placeholder of the name that
  \<^verbatim>\<open>vals\<close> holds for its key; a literal that does not convert, and a list placeholder,
  are unchanged; an IN or NOT IN comparison whose right operand is a tuple that converts
  as a whole has a list placeholder on the right, reserved and bound to the list of the
  values in order; any other node keeps its kind, and its children are rewritten in
  their places.
\<close>

fun rewritten :: "(string \<Rightarrow> 'f option) \<Rightarrow> nstate \<Rightarrow> SQLNode \<Rightarrow> SQLNode \<Rightarrow> bool" where
  "rewritten pf st (SQLVal t v) n' =
     (case sqlToBindvar pf (SQLVal t v) of
        None \<Rightarrow> n' = SQLVal t v
      | Some b \<Rightarrow>
          (case vals st (dedup_key b v) of
             None \<Rightarrow> False
           | Some nm \<Rightarrow> n' = SQLVal ValArg (CHR '':'' # nm)))"
| "rewritten pf st (ListArg a) n' = (n' = ListArg a)"
| "rewritten pf st (ComparisonExpr operator left right) n' =
     (case n' of
        ComparisonExpr operator' left' right' \<Rightarrow>
          operator' = operator \<and> rewritten pf st left left'
          \<and> (case list_rewrite pf operator right of
                None \<Rightarrow> rewritten pf st right right'
              | Some bvalues \<Rightarrow>
                  (case right' of
                     ListArg a \<Rightarrow>
                       take 2 a = ''::'' \<and> drop 2 a |\<in>| reserved st
                       \<and> bindVars st (drop 2 a)
                           = Some \<lparr>Type = Type_TUPLE, Value = [], Values = bvalues\<rparr>
                   | _ \<Rightarrow> False))
      | _ \<Rightarrow> False)"
| "rewritten pf st (ValTuple exprs) n' =
     (case n' of ValTuple exprs' \<Rightarrow> list_all2 (rewritten pf st) exprs exprs' | _ \<Rightarrow> False)"
| "rewritten pf st (Other kind nodes) n' =
     (case n' of
        Other kind' nodes' \<Rightarrow> kind' = kind \<and> list_all2 (rewritten pf st) nodes nodes'
      | _ \<Rightarrow> False)"

lemma zip_size_left: "(a, b) \<in> set (zip xs ys) \<Longrightarrow> size a \<le> size_list size xs"
  by (auto dest!: set_zip_leftD intro: size_list_estimation')

text \<open>
  The names of the list placeholders that stand in \<open>n'\<close> where \<open>n\<close> has a tuple, from
  left to right.
\<close>

function (sequential) list_names :: "SQLNode \<Rightarrow> SQLNode \<Rightarrow> string list" where
  "list_names (ValTuple exprs) (ListArg a) = [drop 2 a]"
| "list_names (ComparisonExpr operator left right) (ComparisonExpr operator' left' right') =
     list_names left left' @ list_names right right'"
| "list_names (ValTuple exprs) (ValTuple exprs') = concat (map2 list_names exprs exprs')"
| "list_names (Other kind nodes) (Other kind' nodes') = concat (map2 list_names nodes nodes')"
| "list_names _ _ = []"
  by pat_completeness auto

termination
proof (relation "measure (\<lambda>(n, n'). size n)")
  show "wf (measure (\<lambda>(n, n'). size n))" by simp
qed (auto dest!: zip_size_left simp: less_Suc_eq_le)

text \<open>
  A place in a tree is the list of the child indexes that lead to it from the root. A
  place of the original statement is still a place of the normalized one unless it lies
  inside a tuple that was replaced by a list placeholder.
\<close>

fun node_at :: "SQLNode \<Rightarrow> nat list \<Rightarrow> SQLNode option" where
  "node_at n [] = Some n"
| "node_at n (i # path) =
     (if i < length (children n) then node_at (children n ! i) path else None)"

text \<open>
  \<open>first_taken\<close>: as long as nothing was allocated the reserved set and the counter are
  the initial ones; after the first allocation the name with the number \<open>k0\<close> is taken.
\<close>

definition first_taken :: "string \<Rightarrow> string fset \<Rightarrow> int \<Rightarrow> nstate \<Rightarrow> bool" where
  "first_taken prefix reserved0 k0 s \<longleftrightarrow>
     reserved s = reserved0 \<and> counter s = 1
     \<or> prefix @ itoa k0 |\<in>| reserved s \<and> k0 < counter s"

text \<open>
  How a graph stands for a tree. \<open>reprs h n e\<close>: read through the heap \<open>h\<close>, the
  expression \<open>e\<close> is the tree \<open>n\<close>; two statements are structurally equal when
  they stand for the same tree. \<open>cells h n e\<close> lists the objects met on the way, one
  entry for each place: the list is distinct when no object stands at two places of the
  statement.
\<close>

datatype cell = ValCell addr | CmpCell addr

fun reprs :: "heap \<Rightarrow> SQLNode \<Rightarrow> Expr \<Rightarrow> bool"
  and reprs_list :: "heap \<Rightarrow> SQLNode list \<Rightarrow> Expr list \<Rightarrow> bool" where
  "reprs h (SQLVal t v) e = (case e of ValRef a \<Rightarrow> sqlvals h a = Some (t, v) | _ \<Rightarrow> False)"
| "reprs h (ComparisonExpr operator left right) e =
     (case e of
        CmpRef a \<Rightarrow>
          (case comparisons h a of
             None \<Rightarrow> False
           | Some (operator', l, r) \<Rightarrow> operator' = operator \<and> reprs h left l \<and> reprs h right r)
      | _ \<Rightarrow> False)"
| "reprs h (ValTuple exprs) e = (case e of TupleOf es \<Rightarrow> reprs_list h exprs es | _ \<Rightarrow> False)"
| "reprs h (ListArg v) e = (e = ListArgOf v)"
| "reprs h (Other kind nodes) e =
     (case e of OtherOf kind' es \<Rightarrow> kind' = kind \<and> reprs_list h nodes es | _ \<Rightarrow> False)"
| "reprs_list h [] es = (es = [])"
| "reprs_list h (n # ns) es = (case es of [] \<Rightarrow> False | e # es' \<Rightarrow> reprs h n e \<and> reprs_list h ns es')"

fun cells :: "heap \<Rightarrow> SQLNode \<Rightarrow> Expr \<Rightarrow> cell list"
  and cells_list :: "heap \<Rightarrow> SQLNode list \<Rightarrow> Expr list \<Rightarrow> cell list" where
  "cells h (SQLVal t v) e = (case e of ValRef a \<Rightarrow> [ValCell a] | _ \<Rightarrow> [])"
| "cells h (ComparisonExpr operator left right) e =
     (case e of
        CmpRef a \<Rightarrow>
          (case comparisons h a of
             None \<Rightarrow> []
           | Some (operator', l, r) \<Rightarrow> CmpCell a # cells h left l @ cells h right r)
      | _ \<Rightarrow> [])"
| "cells h (ValTuple exprs) e = (case e of TupleOf es \<Rightarrow> cells_list h exprs es | _ \<Rightarrow> [])"
| "cells h (ListArg v) e = []"
| "cells h (Other kind nodes) e = (case e of OtherOf kind' es \<Rightarrow> cells_list h nodes es | _ \<Rightarrow> [])"
| "cells_list h [] es = []"
| "cells_list h (n # ns) es = (case es of [] \<Rightarrow> [] | e # es' \<Rightarrow> cells h n e @ cells_list h ns es')"

text \<open>
  For the proofs: the content of an object, the object a node points to, heaps that
  differ only at given objects, and what a step of a walk keeps of the representation
  (the node is still represented, it has met no new object and none twice, and no object
  outside the node has changed).
\<close>

fun cell_of :: "heap \<Rightarrow> cell \<Rightarrow> (ValType \<times> string + string \<times> Expr \<times> Expr) option" where
  "cell_of h (ValCell a) = map_option Inl (sqlvals h a)"
| "cell_of h (CmpCell a) = map_option Inr (comparisons h a)"

fun root :: "Expr \<Rightarrow> cell list" where
  "root (ValRef a) = [ValCell a]"
| "root (CmpRef a) = [CmpCell a]"
| "root _ = []"

definition mod_within :: "cell set \<Rightarrow> heap \<Rightarrow> heap \<Rightarrow> bool" where
  "mod_within C h h' \<longleftrightarrow> (\<forall>c. c \<notin> C \<longrightarrow> cell_of h' c = cell_of h c)"

definition kept :: "heap \<Rightarrow> SQLNode \<Rightarrow> Expr \<Rightarrow> heap \<Rightarrow> SQLNode \<Rightarrow> bool" where
  "kept h n e h' n' \<longleftrightarrow>
     reprs h' n' e \<and> set (cells h' n' e) \<subseteq> set (cells h n e) \<and> distinct (cells h' n' e)
     \<and> mod_within (set (cells h n e)) h h'"

definition kept_list :: "heap \<Rightarrow> SQLNode list \<Rightarrow> Expr list \<Rightarrow> heap \<Rightarrow> SQLNode list \<Rightarrow> bool" where
  "kept_list h ns es h' ns' \<longleftrightarrow>
     reprs_list h' ns' es \<and> set (cells_list h' ns' es) \<subseteq> set (cells_list h ns es)
     \<and> distinct (cells_list h' ns' es) \<and> mod_within (set (cells_list h ns es)) h h'"

text \<open>
  A callback on graphs simulates a callback on trees when, on a node that is represented
  without sharing, it ends in the same way, leaves the same state, and leaves a heap in
  which the new node is represented, having changed at most the object of the node.
  \<open>same_result\<close> compares the result of a walk on trees with that of a walk on graphs.
\<close>

definition simulates :: "'s Visit \<Rightarrow> 's HVisit \<Rightarrow> bool" where
  "simulates visit hvisit \<longleftrightarrow>
     (\<forall>n e h s. reprs h n e \<and> distinct (cells h n e) \<longrightarrow>
        (case visit n s of
           Inl f \<Rightarrow> hvisit e h s = Inl (SlicePanic f)
         | Inr (kontinue, err, n', s1) \<Rightarrow>
             (\<exists>h1. hvisit e h s = Inr (kontinue, err, h1, s1)
                \<and> reprs h1 n' e \<and> set (cells h1 n' e) \<subseteq> set (cells h n e)
                \<and> distinct (cells h1 n' e) \<and> mod_within (set (root e)) h h1)))"

definition same_result ::
  "heap \<Rightarrow> SQLNode list \<Rightarrow> Expr list \<Rightarrow> fault + (error option \<times> SQLNode list \<times> 's)
     \<Rightarrow> (panic + (error option \<times> heap \<times> 's)) option \<Rightarrow> bool" where
  "same_result h ns es r hr \<longleftrightarrow>
     (case r of
        Inl f \<Rightarrow> hr = Some (Inl (SlicePanic f))
      | Inr (err, ns', s') \<Rightarrow> (\<exists>h'. hr = Some (Inr (err, h', s')) \<and> kept_list h ns es h' ns'))"

section \<open>What the allocator returns\<close>

lemma newName_first_free:
  "\<exists>k. counter0 \<le> k
     \<and> newName prefix counter0 reserved0
         = (prefix @ itoa k, k + 1, finsert (prefix @ itoa k) reserved0)
     \<and> prefix @ itoa k |\<notin>| reserved0
     \<and> (\<forall>j. counter0 \<le> j \<and> j < k \<longrightarrow> prefix @ itoa j |\<in>| reserved0)"
proof (induction prefix counter0 reserved0 rule: newName.induct)
  case (1 prefix counter0 reserved0)
  show ?case
  proof (cases "prefix @ itoa counter0 |\<notin>| reserved0")
    case True
    then have "newName prefix counter0 reserved0
        = (prefix @ itoa counter0, counter0 + 1, finsert (prefix @ itoa counter0) reserved0)"
      by (subst newName.simps) (simp add: Let_def)
    with True show ?thesis by (intro exI [of _ counter0]) auto
  next
    case False
    with "1" obtain k where k: "counter0 + 1 \<le> k"
      "newName prefix (counter0 + 1) reserved0
         = (prefix @ itoa k, k + 1, finsert (prefix @ itoa k) reserved0)"
      "prefix @ itoa k |\<notin>| reserved0"
      "\<forall>j. counter0 + 1 \<le> j \<and> j < k \<longrightarrow> prefix @ itoa j |\<in>| reserved0"
      by blast
    from False have eq: "newName prefix counter0 reserved0 = newName prefix (counter0 + 1) reserved0"
      by (subst newName.simps) (simp add: Let_def)
    have "\<forall>j. counter0 \<le> j \<and> j < k \<longrightarrow> prefix @ itoa j |\<in>| reserved0"
    proof (intro allI impI)
      fix j assume j: "counter0 \<le> j \<and> j < k"
      show "prefix @ itoa j |\<in>| reserved0"
      proof (cases "j = counter0")
        case True
        with False show ?thesis by simp
      next
        case False
        with j k(4) show ?thesis by auto
      qed
    qed
    with k eq show ?thesis by (intro exI [of _ k]) auto
  qed
qed


text \<open>
  The 64-bit allocator probes the counter values \<open>counter0\<close>, \<open>counter0 + 1\<close>, ... in
  the arithmetic of 64-bit words and returns at the first one whose name is not reserved.
\<close>

lemma newName64_steps:
  "prefix @ itoa (sint (c + of_nat n)) |\<notin>| R
   \<Longrightarrow> (\<forall>m<n. prefix @ itoa (sint (c + of_nat m)) |\<in>| R)
   \<Longrightarrow> newName64 prefix c R
       = Some (prefix @ itoa (sint (c + of_nat n)), c + of_nat n + 1,
               finsert (prefix @ itoa (sint (c + of_nat n))) R)"
proof (induction n arbitrary: c)
  case 0
  then show ?case by (subst newName64.simps) (simp add: Let_def)
next
  case (Suc n)
  have e: "\<And>m. c + 1 + of_nat m = c + of_nat (Suc m)" by simp
  from Suc.prems(2) have "prefix @ itoa (sint (c + of_nat 0)) |\<in>| R" by blast
  then have here: "prefix @ itoa (sint c) |\<in>| R" by simp
  have free: "prefix @ itoa (sint (c + 1 + of_nat n)) |\<notin>| R"
    using Suc.prems(1) by (metis e)
  have taken: "\<forall>m<n. prefix @ itoa (sint (c + 1 + of_nat m)) |\<in>| R"
    using Suc.prems(2) by (metis e Suc_less_eq)
  have "newName64 prefix c R = newName64 prefix (c + 1) R"
    using here by (subst newName64.simps) (simp add: Let_def)
  also note Suc.IH [OF free taken]
  finally show ?case by (simp only: e)
qed

lemma newName64_first_free:
  assumes "\<exists>w :: 64 word. prefix @ itoa (sint w) |\<notin>| R"
  shows "\<exists>n < 2 ^ 64. newName64 prefix c R
       = Some (prefix @ itoa (sint (c + of_nat n)), c + of_nat n + 1,
               finsert (prefix @ itoa (sint (c + of_nat n))) R)
     \<and> prefix @ itoa (sint (c + of_nat n)) |\<notin>| R
     \<and> (\<forall>m<n. prefix @ itoa (sint (c + of_nat m)) |\<in>| R)"
proof -
  from assms obtain w :: "64 word" where w: "prefix @ itoa (sint w) |\<notin>| R" by blast
  let ?P = "\<lambda>n. prefix @ itoa (sint (c + of_nat n)) |\<notin>| R"
  have "c + of_nat (unat (w - c)) = w" by simp
  with w have ex: "?P (unat (w - c))" by simp
  define n where "n = (LEAST n. ?P n)"
  have free: "?P n" unfolding n_def using ex by (rule LeastI)
  have taken: "\<forall>m<n. prefix @ itoa (sint (c + of_nat m)) |\<in>| R"
    unfolding n_def using not_less_Least by blast
  have "n \<le> unat (w - c)" unfolding n_def using ex by (rule Least_le)
  moreover have "unat (w - c) < 2 ^ 64" using unsigned_less [of "w - c"] by simp
  ultimately have "n < 2 ^ 64" by simp
  with newName64_steps [OF free taken] free taken show ?thesis by blast
qed

text \<open>
  A call that returns found a name that was not reserved: when all the \<open>2^64\<close> names
  that the counter can print are reserved, the loop runs for ever. A reserved set of
  fewer than \<open>2^64\<close> names always leaves one of them free.
\<close>

lemma newName64_returns_room:
  assumes "newName64 prefix c R = Some r"
  shows "\<exists>w :: 64 word. prefix @ itoa (sint w) |\<notin>| R"
proof (rule newName64.raw_induct
    [where P = "\<lambda>prefix c R r. \<exists>w :: 64 word. prefix @ itoa (sint w) |\<notin>| R", OF _ assms])
  fix f :: "string \<Rightarrow> 64 word \<Rightarrow> string fset \<Rightarrow> (string \<times> 64 word \<times> string fset) option"
    and prefix c R r
  assume IH: "\<And>prefix c R r. f prefix c R = Some r
      \<Longrightarrow> \<exists>w :: 64 word. prefix @ itoa (sint w) |\<notin>| R"
    and body: "(let name = prefix @ itoa (sint c) in
       if name |\<notin>| R then Some (name, c + 1, finsert name R)
       else f prefix (c + 1) R) = Some r"
  show "\<exists>w :: 64 word. prefix @ itoa (sint w) |\<notin>| R"
  proof (cases "prefix @ itoa (sint c) |\<notin>| R")
    case True then show ?thesis by blast
  next
    case False
    with body have "f prefix (c + 1) R = Some r" by (simp add: Let_def)
    then show ?thesis by (rule IH)
  qed
qed

lemma newName64_full:
  assumes "\<forall>w :: 64 word. prefix @ itoa (sint w) |\<in>| R"
  shows "newName64 prefix c R = None"
proof (cases "newName64 prefix c R")
  case None then show ?thesis .
next
  case (Some r)
  from newName64_returns_room [OF Some] assms show ?thesis by blast
qed

lemma newName64_never_returns:
  "newName64 prefix c (Abs_fset (range (\<lambda>w :: 64 word. prefix @ itoa (sint w)))) = None"
proof (rule newName64_full)
  have "fset (Abs_fset (range (\<lambda>w :: 64 word. prefix @ itoa (sint w))))
      = range (\<lambda>w :: 64 word. prefix @ itoa (sint w))"
    by (rule Abs_fset_inverse) simp
  then show "\<forall>w :: 64 word. prefix @ itoa (sint w)
      |\<in>| Abs_fset (range (\<lambda>w :: 64 word. prefix @ itoa (sint w)))"
    by auto
qed

lemma sint_name_inj: "prefix @ itoa (sint (v :: 64 word)) = prefix @ itoa (sint w) \<Longrightarrow> v = w"
  by (auto dest!: itoa_inj intro: signed_word_eqI)

lemma newName64_room:
  assumes "fcard R < 2 ^ 64"
  shows "\<exists>w :: 64 word. prefix @ itoa (sint w) |\<notin>| R"
proof (rule ccontr)
  assume "\<not> ?thesis"
  then have all: "\<And>w :: 64 word. prefix @ itoa (sint w) |\<in>| R" by blast
  let ?f = "\<lambda>w :: 64 word. prefix @ itoa (sint w)"
  have "inj ?f" by (rule injI) (rule sint_name_inj)
  then have "card (range ?f) = card (UNIV :: 64 word set)" by (rule card_image)
  also have "\<dots> = 2 ^ 64" by (simp add: card_word)
  finally have c: "card (range ?f) = 2 ^ 64" .
  have "range ?f \<subseteq> fset R" using all by auto
  then have "card (range ?f) \<le> card (fset R)" by (intro card_mono) simp_all
  with c assms show False by (simp add: fcard.rep_eq)
qed

text \<open>
  The loop over the unbounded integers and the 64-bit loop agree until the counter wraps.
\<close>

lemma sint_word_of_int_64:
  "- (2 ^ 63) \<le> x \<Longrightarrow> x < 2 ^ 63 \<Longrightarrow> sint (word_of_int x :: 64 word) = x"
  by (simp add: sint_sbintrunc' signed_take_bit_int_eq_self)

lemma newName64_newName:
  assumes lo: "- (2 ^ 63) \<le> c0"
    and run: "newName prefix c0 R = (nm, c', R')"
    and hi: "c' \<le> 2 ^ 63"
  shows "newName64 prefix (word_of_int c0) R = Some (nm, word_of_int c', R')"
proof -
  from newName_first_free [of c0 "prefix" R] obtain k where k: "c0 \<le> k"
    and eq: "newName prefix c0 R = (prefix @ itoa k, k + 1, finsert (prefix @ itoa k) R)"
    and free: "prefix @ itoa k |\<notin>| R"
    and taken: "\<forall>j. c0 \<le> j \<and> j < k \<longrightarrow> prefix @ itoa j |\<in>| R"
    by blast
  from run eq have nm: "nm = prefix @ itoa k" and c': "c' = k + 1"
    and R': "R' = finsert (prefix @ itoa k) R" by auto
  from hi c' have khi: "k < 2 ^ 63" by simp
  from k obtain n where kn: "k = c0 + int n" by (auto simp: zle_iff_zadd)
  have at: "\<And>m. m \<le> n \<Longrightarrow> sint (word_of_int c0 + of_nat m :: 64 word) = c0 + int m"
  proof -
    fix m assume "m \<le> n"
    with kn have "c0 + int m \<le> k" by simp
    with lo khi have "sint (word_of_int (c0 + int m) :: 64 word) = c0 + int m"
      by (intro sint_word_of_int_64) simp_all
    then show "sint (word_of_int c0 + of_nat m :: 64 word) = c0 + int m" by simp
  qed
  have atn: "sint (word_of_int c0 + of_nat n :: 64 word) = k"
    using at [of n] kn by simp
  have f: "prefix @ itoa (sint (word_of_int c0 + of_nat n :: 64 word)) |\<notin>| R"
    using free by (simp add: atn)
  have t: "\<forall>m < n. prefix @ itoa (sint (word_of_int c0 + of_nat m :: 64 word)) |\<in>| R"
  proof (intro allI impI)
    fix m assume m: "m < n"
    then have "c0 \<le> c0 + int m \<and> c0 + int m < k" using kn by simp
    with taken have "prefix @ itoa (c0 + int m) |\<in>| R" by blast
    with at [of m] m show "prefix @ itoa (sint (word_of_int c0 + of_nat m :: 64 word)) |\<in>| R"
      by simp
  qed
  have w: "(word_of_int c0 + of_nat n + 1 :: 64 word) = word_of_int c'"
    by (simp add: c' kn)
  from newName64_steps [OF f t] show ?thesis
    unfolding atn w nm R' .
qed

lemma itoa_max: "itoa 9223372036854775807 = ''9223372036854775807''"
  by (simp add: itoa_def digits.simps digit_char_def)

text \<open>
  C9, as the spec states it, fails at the largest counter. Called with the counter
  \<open>2^63 - 1\<close> and nothing reserved, the allocator returns the name with that number, and
  the counter it returns for the next call is \<open>- 2^63\<close>, not the successful counter
  value plus one: the next probe is for the name \<^verbatim>\<open>v-9223372036854775808\<close>.
\<close>

theorem newName64_wrap_counterexample:
  "newName64 ''v'' 9223372036854775807 {||}
     = Some (''v9223372036854775807'', - 9223372036854775808, {|''v9223372036854775807''|})
   \<and> sint (- 9223372036854775808 :: 64 word) = - 9223372036854775808
   \<and> sint (- 9223372036854775808 :: 64 word) \<noteq> sint (9223372036854775807 :: 64 word) + 1"
  by (subst newName64.simps) (simp add: Let_def itoa_max)

text \<open>
  C9, amended. For every prefix, every starting counter and every reserved set that leaves free
  at least one of the \<open>2^64\<close> names the counter can print (so every reserved set of
  fewer than \<open>2^64\<close> names), the allocator returns. It has probed the counter values
  \<open>counter0\<close>, \<open>counter0 + 1\<close>, ... in 64-bit arithmetic, which wraps from \<open>2^63 - 1\<close>
  to \<open>- 2^63\<close>; the name it returns is the prefix followed by the decimal form of the
  first of these values whose name is not reserved; that name is added to the reserved set;
  and the counter for the next call is that value plus one, again in 64-bit arithmetic.
\<close>

theorem newName64_allocates:
  assumes "\<exists>w :: 64 word. prefix @ itoa (sint w) |\<notin>| reserved0"
  shows "\<exists>n < 2 ^ 64.
     newName64 prefix counter0 reserved0
       = Some (prefix @ itoa (sint (counter0 + of_nat n)), counter0 + of_nat n + 1,
               finsert (prefix @ itoa (sint (counter0 + of_nat n))) reserved0)
     \<and> prefix @ itoa (sint (counter0 + of_nat n)) |\<notin>| reserved0
     \<and> (\<forall>m < n. prefix @ itoa (sint (counter0 + of_nat m)) |\<in>| reserved0)"
  using assms by (rule newName64_first_free)

theorem newName64_allocates_witness:
  "newName64 ''v'' 1 {|''v1''|} = Some (''v2'', 3, {|''v2'', ''v1''|})"
proof -
  have i1: "itoa 1 = ''1''" and i2: "itoa 2 = ''2''"
    by (simp_all add: itoa_def digits.simps digit_char_def)
  have room: "\<exists>w :: 64 word. ''v'' @ itoa (sint w) |\<notin>| {|''v1''|}"
    by (rule exI [of _ 2]) (simp add: i2)
  from newName64_allocates [OF room, of 1]
  obtain n where n:
    "newName64 ''v'' 1 {|''v1''|}
       = Some (''v'' @ itoa (sint (1 + of_nat n :: 64 word)), 1 + of_nat n + 1,
               finsert (''v'' @ itoa (sint (1 + of_nat n :: 64 word))) {|''v1''|})"
    "''v'' @ itoa (sint (1 + of_nat n :: 64 word)) |\<notin>| {|''v1''|}"
    "\<forall>m < n. ''v'' @ itoa (sint (1 + of_nat m :: 64 word)) |\<in>| {|''v1''|}"
    by blast
  have "n \<noteq> 0"
  proof
    assume "n = 0"
    with n(2) i1 show False by simp
  qed
  moreover have "\<not> 1 < n"
  proof
    assume "1 < n"
    with n(3) have "''v'' @ itoa (sint (1 + of_nat 1 :: 64 word)) |\<in>| {|''v1''|}" by blast
    with i2 show False by simp
  qed
  ultimately have "n = 1" by simp
  with n(1) i2 show ?thesis by simp
qed

section \<open>Typed-value conversion\<close>

lemma ParseInt_range: "ParseInt v = Some i \<Longrightarrow> - (2 ^ 63) \<le> i \<and> i < 2 ^ 63"
  by (auto simp: ParseInt_def Let_def split: list.splits if_splits prod.splits)

text \<open>
  C6. \<^verbatim>\<open>sqlToBindvar\<close> gives, for a string literal, the byte-string value with the raw
  bytes verbatim; for an integer literal, the 64-bit integer value of the raw text when
  the text parses as a 64-bit signed decimal integer and nothing otherwise; for a float
  literal, the float value of the raw text when the text parses as a float and nothing
  otherwise; and nothing for every other literal kind and every node that is not a
  literal. It is a function of the node alone, and its result is a whole value or nothing.
\<close>

theorem sqlToBindvar_cases:
  "sqlToBindvar ParseFloat (SQLVal StrVal v) = Some \<lparr>Type = VarBinary, Value = v, Values = []\<rparr>
   \<and> sqlToBindvar ParseFloat (SQLVal IntVal v)
       = (case ParseInt v of None \<Rightarrow> None
          | Some i \<Rightarrow> Some \<lparr>Type = Int64, Value = v, Values = []\<rparr>)
   \<and> (\<forall>i. ParseInt v = Some i \<longrightarrow> - (2 ^ 63) \<le> i \<and> i < 2 ^ 63)
   \<and> sqlToBindvar ParseFloat (SQLVal FloatVal v)
       = (case ParseFloat v of None \<Rightarrow> None
          | Some x \<Rightarrow> Some \<lparr>Type = Float64, Value = v, Values = []\<rparr>)
   \<and> (t \<noteq> StrVal \<and> t \<noteq> IntVal \<and> t \<noteq> FloatVal \<longrightarrow> sqlToBindvar ParseFloat (SQLVal t v) = None)
   \<and> sqlToBindvar ParseFloat (ComparisonExpr operator left right) = None
   \<and> sqlToBindvar ParseFloat (ValTuple exprs) = None
   \<and> sqlToBindvar ParseFloat (ListArg a) = None
   \<and> sqlToBindvar ParseFloat (Other kind nodes) = None"
proof -
  have "t \<noteq> StrVal \<and> t \<noteq> IntVal \<and> t \<noteq> FloatVal \<longrightarrow> sqlToBindvar ParseFloat (SQLVal t v) = None"
    by (cases t) (simp_all add: sqlToBindvar_def)
  moreover have "sqlToBindvar ParseFloat (SQLVal IntVal v)
       = (case ParseInt v of None \<Rightarrow> None
          | Some i \<Rightarrow> Some \<lparr>Type = Int64, Value = v, Values = []\<rparr>)"
    by (simp add: sqlToBindvar_def NewValue_def ValueBindVariable_def split: option.splits)
  moreover have "sqlToBindvar ParseFloat (SQLVal FloatVal v)
       = (case ParseFloat v of None \<Rightarrow> None
          | Some x \<Rightarrow> Some \<lparr>Type = Float64, Value = v, Values = []\<rparr>)"
    by (simp add: sqlToBindvar_def NewValue_def ValueBindVariable_def split: option.splits)
  moreover have "sqlToBindvar ParseFloat (SQLVal StrVal v) = Some \<lparr>Type = VarBinary, Value = v, Values = []\<rparr>"
    by (simp add: sqlToBindvar_def NewValue_def ValueBindVariable_def)
  ultimately show ?thesis
    using ParseInt_range [of v] by (simp add: sqlToBindvar_def)
qed

lemma ParseInt_42: "ParseInt ''42'' = Some 42"
  by (simp add: ParseInt_def undigits_def digit_val_def is_digit_def)

lemma ParseInt_neg: "ParseInt ''-7'' = Some (- 7)"
  by (simp add: ParseInt_def undigits_def digit_val_def is_digit_def)

lemma ParseInt_big: "ParseInt ''9223372036854775808'' = None"
  by (simp add: ParseInt_def undigits_def digit_val_def is_digit_def)

lemma ParseInt_max: "ParseInt ''9223372036854775807'' = Some 9223372036854775807"
  by (simp add: ParseInt_def undigits_def digit_val_def is_digit_def)

lemma ParseInt_bad: "ParseInt ''4x'' = None"
  by (simp add: ParseInt_def undigits_def digit_val_def is_digit_def)

theorem sqlToBindvar_cases_witness:
  "sqlToBindvar (\<lambda>s. if s = ''1.5'' then Some () else None) (SQLVal IntVal ''42'')
     = Some \<lparr>Type = Int64, Value = ''42'', Values = []\<rparr>
   \<and> ParseInt ''42'' = Some 42
   \<and> sqlToBindvar (\<lambda>s. if s = ''1.5'' then Some () else None) (SQLVal IntVal ''9223372036854775808'') = None
   \<and> sqlToBindvar (\<lambda>s. if s = ''1.5'' then Some () else None) (SQLVal FloatVal ''1.5'')
     = Some \<lparr>Type = Float64, Value = ''1.5'', Values = []\<rparr>
   \<and> sqlToBindvar (\<lambda>s. if s = ''1.5'' then Some () else None) (SQLVal FloatVal ''1.5.'') = None
   \<and> sqlToBindvar (\<lambda>s. if s = ''1.5'' then Some () else None) (SQLVal (OtherVal 0) ''0b1'') = None"
  using sqlToBindvar_cases [of "\<lambda>s. if s = ''1.5'' then Some () else None" "''42''" "OtherVal 0"]
    sqlToBindvar_cases [of "\<lambda>s. if s = ''1.5'' then Some () else None" "''9223372036854775808''" "OtherVal 0"]
    sqlToBindvar_cases [of "\<lambda>s. if s = ''1.5'' then Some () else None" "''1.5''" "OtherVal 0"]
    sqlToBindvar_cases [of "\<lambda>s. if s = ''1.5'' then Some () else None" "''1.5.''" "OtherVal 0"]
    sqlToBindvar_cases [of "\<lambda>s. if s = ''1.5'' then Some () else None" "''0b1''" "OtherVal 0"]
  by (simp add: ParseInt_42 ParseInt_big)

section \<open>Walks that return\<close>

lemma nsize_children: "nsize n = 1 + sum_list (map nsize (children n))"
  by (cases n) simp_all

lemma Walk_Nil: "Walk visit [] s = Some (Inr (None, [], s))"
  by (subst Walk.simps) simp

lemma Walk_Cons_fault: "visit n s = Inl f \<Longrightarrow> Walk visit (n # ns) s = Some (Inl f)"
  by (subst Walk.simps) simp

lemma Walk_Cons_plain:
  "visit n s = Inr (True, None, n', s1) \<Longrightarrow>
   Walk visit (n # ns) s =
     Option.bind (Walk visit (children n') s1)
       (\<lambda>sub. case sub of
          Inl f \<Rightarrow> Some (Inl f)
        | Inr (err2, cs, s2) \<Rightarrow>
            (case err2 of
               Some e \<Rightarrow> Some (Inr (Some e, with_children n' cs # ns, s2))
             | None \<Rightarrow>
                 Option.bind (Walk visit ns s2)
                   (\<lambda>tl. case tl of
                      Inl f \<Rightarrow> Some (Inl f)
                    | Inr (err3, rest', s3) \<Rightarrow>
                        Some (Inr (err3, with_children n' cs # rest', s3)))))"
  by (subst Walk.simps) simp

lemma walks_Walk: "walks visit ns s ns' s' \<Longrightarrow> Walk visit ns s = Some (Inr (None, ns', s'))"
  by (induction rule: walks.induct) (simp_all add: Walk_Nil Walk_Cons_plain)

lemma walks_length: "walks visit ns s ns' s' \<Longrightarrow> length ns' = length ns"
  by (induction rule: walks.induct) simp_all

lemma steady_walks: 
  assumes "steady visit"
  shows "\<exists>ns' s'. walks visit ns s ns' s'"
proof (induction "sum_list (map nsize ns)" arbitrary: ns s rule: less_induct)
  case less
  show ?case
  proof (cases ns)
    case Nil
    then show ?thesis by (auto intro: walks_Nil)
  next
    case (Cons n rest)
    from assms obtain n' s1 where v: "visit n s = Inr (True, None, n', s1)"
      and le: "sum_list (map nsize (children n')) \<le> sum_list (map nsize (children n))"
      unfolding steady_def by blast
    have "sum_list (map nsize (children n')) < sum_list (map nsize ns)"
      using le Cons nsize_children [of n] by simp
    from less [OF this] obtain cs s2 where c: "walks visit (children n') s1 cs s2" by blast
    have "sum_list (map nsize rest) < sum_list (map nsize ns)"
      using Cons nsize_children [of n] by simp
    from less [OF this] obtain rest' s3 where r: "walks visit rest s2 rest' s3" by blast
    from walks_Cons [OF v c r] Cons show ?thesis by blast
  qed
qed

section \<open>What the scanner returns\<close>

lemma with_children_children: "with_children n (children n) = n"
  by (cases n) simp_all

lemma truncated_children: "truncated n \<longleftrightarrow>
    (case n of SQLVal t v \<Rightarrow> t = ValArg \<and> length v < 1 | ListArg v \<Rightarrow> length v < 2 | _ \<Rightarrow> False)
    \<or> (\<exists>c \<in> set (children n). truncated c)"
  by (cases n) (auto simp: list_ex_iff)

lemma scanned_children: "scanned n =
    (case n of SQLVal t v \<Rightarrow> if t = ValArg then {drop 1 v} else {} | ListArg v \<Rightarrow> {drop 2 v} | _ \<Rightarrow> {})
    \<union> (\<Union>c \<in> set (children n). scanned c)"
  by (cases n) auto

lemma GetBindvars_visit_ok:
  "\<not> truncated n \<Longrightarrow> \<exists>S'. GetBindvars_visit n S = Inr (True, None, n, S')
     \<and> fset S' = fset S \<union> (case n of SQLVal t v \<Rightarrow> if t = ValArg then {drop 1 v} else {} | ListArg v \<Rightarrow> {drop 2 v} | _ \<Rightarrow> {})"
  by (cases n) (auto simp: GetBindvars_visit_def)

lemma GetBindvars_visit_fault:
  "(case n of SQLVal t v \<Rightarrow> t = ValArg \<and> length v < 1 | ListArg v \<Rightarrow> length v < 2 | _ \<Rightarrow> False)
     \<Longrightarrow> GetBindvars_visit n S = Inl SliceBoundsOutOfRange"
  by (cases n) (auto simp: GetBindvars_visit_def)

lemma GetBindvars_visit_cases:
  "GetBindvars_visit n S = Inl SliceBoundsOutOfRange \<or> (\<exists>S'. GetBindvars_visit n S = Inr (True, None, n, S'))"
  by (cases n) (auto simp: GetBindvars_visit_def)

lemma scan_walks:
  "\<forall>n \<in> set ns. \<not> truncated n \<Longrightarrow>
   \<exists>S'. walks GetBindvars_visit ns S ns S' \<and> fset S' = fset S \<union> (\<Union>n \<in> set ns. scanned n)"
proof (induction "sum_list (map nsize ns)" arbitrary: ns S rule: less_induct)
  case less
  show ?case
  proof (cases ns)
    case Nil
    then show ?thesis by (auto intro: walks_Nil)
  next
    case (Cons n rest)
    with less.prems have nt: "\<not> truncated n" and rt: "\<forall>m \<in> set rest. \<not> truncated m" by simp_all
    from GetBindvars_visit_ok [OF nt, of S] obtain S1 where
      v: "GetBindvars_visit n S = Inr (True, None, n, S1)" and
      s1: "fset S1 = fset S \<union> (case n of SQLVal t v \<Rightarrow> if t = ValArg then {drop 1 v} else {} | ListArg v \<Rightarrow> {drop 2 v} | _ \<Rightarrow> {})"
      by blast
    from nt have ct: "\<forall>c \<in> set (children n). \<not> truncated c"
      by (subst (asm) truncated_children) simp
    have "sum_list (map nsize (children n)) < sum_list (map nsize ns)"
      using Cons nsize_children [of n] by simp
    from less.hyps [OF this ct, of S1] obtain S2 where
      c: "walks GetBindvars_visit (children n) S1 (children n) S2" and
      s2: "fset S2 = fset S1 \<union> (\<Union>c \<in> set (children n). scanned c)" by blast
    have "sum_list (map nsize rest) < sum_list (map nsize ns)"
      using Cons nsize_children [of n] by simp
    from less.hyps [OF this rt, of S2] obtain S3 where
      r: "walks GetBindvars_visit rest S2 rest S3" and
      s3: "fset S3 = fset S2 \<union> (\<Union>m \<in> set rest. scanned m)" by blast
    from walks_Cons [OF v c r] have w: "walks GetBindvars_visit ns S ns S3"
      by (simp add: Cons with_children_children)
    have "fset S3 = fset S \<union> (\<Union>m \<in> set ns. scanned m)"
      using s1 s2 s3 Cons scanned_children [of n] by auto
    with w show ?thesis by blast
  qed
qed

lemma scan_faults:
  "\<exists>n \<in> set ns. truncated n \<Longrightarrow> Walk GetBindvars_visit ns S = Some (Inl SliceBoundsOutOfRange)"
proof (induction "sum_list (map nsize ns)" arbitrary: ns S rule: less_induct)
  case less
  from less.prems obtain n rest where Cons: "ns = n # rest" by (cases ns) auto
  have small_c: "sum_list (map nsize (children n)) < sum_list (map nsize ns)"
    and small_r: "sum_list (map nsize rest) < sum_list (map nsize ns)"
    using Cons nsize_children [of n] by simp_all
  from GetBindvars_visit_cases [of n S] show ?case
  proof
    assume "GetBindvars_visit n S = Inl SliceBoundsOutOfRange"
    then show ?thesis by (simp add: Cons Walk_Cons_fault)
  next
    assume "\<exists>S'. GetBindvars_visit n S = Inr (True, None, n, S')"
    then obtain S1 where v: "GetBindvars_visit n S = Inr (True, None, n, S1)" by blast
    show ?thesis
    proof (cases "\<exists>c \<in> set (children n). truncated c")
      case True
      from less.hyps [OF small_c True, of S1] show ?thesis
        by (simp add: Cons Walk_Cons_plain [where visit = GetBindvars_visit, OF v])
    next
      case False
      then have "\<forall>c \<in> set (children n). \<not> truncated c" by simp
      from scan_walks [OF this, of S1] obtain S2 where
        "walks GetBindvars_visit (children n) S1 (children n) S2" by blast
      then have c: "Walk GetBindvars_visit (children n) S1 = Some (Inr (None, children n, S2))"
        by (rule walks_Walk)
      have "\<not> truncated n"
        using v False GetBindvars_visit_fault [of n S] by (subst truncated_children) auto
      with less.prems Cons have "\<exists>m \<in> set rest. truncated m" by simp
      from less.hyps [OF small_r this, of S2] show ?thesis
        by (simp add: Cons Walk_Cons_plain [where visit = GetBindvars_visit, OF v] c)
    qed
  qed
qed

lemma well_encoded_not_truncated: "well_encoded n \<Longrightarrow> \<not> truncated n"
  by (induction n) (auto simp: list_all_iff list_ex_iff)

lemma well_encoded_scanned: "well_encoded n \<Longrightarrow> scanned n = bindvar_names n"
  by (induction n) (auto simp: list_all_iff)

lemma GetBindvars_fault: "truncated stmt \<Longrightarrow> GetBindvars stmt = Some (Inl SliceBoundsOutOfRange)"
  by (simp add: GetBindvars_def scan_faults)

lemma GetBindvars_returns:
  "\<not> truncated stmt \<Longrightarrow> \<exists>names. GetBindvars stmt = Some (Inr ([stmt], names)) \<and> fset names = scanned stmt"
proof -
  assume "\<not> truncated stmt"
  then have "\<forall>n \<in> set [stmt]. \<not> truncated n" by simp
  from scan_walks [OF this, of "{||}"] obtain S' where
    "walks GetBindvars_visit [stmt] {||} [stmt] S'" "fset S' = scanned stmt" by auto
  then show ?thesis by (auto simp: GetBindvars_def dest: walks_Walk)
qed

text \<open>
  C7, as the spec states it for every statement, fails on a placeholder node that does
  not carry its sigil. The scanner cuts the first byte off a \<^verbatim>\<open>ValArg\<close> literal and the
  first two bytes off a \<^verbatim>\<open>ListArg\<close> without looking at them. For the \<^verbatim>\<open>ValArg\<close> literal
  with the bytes \<^verbatim>\<open>v1\<close> it returns the name \<^verbatim>\<open>1\<close>, which the statement does not refer to;
  on the \<^verbatim>\<open>ListArg\<close> with the one byte \<^verbatim>\<open>:\<close> the slice expression panics and the
  scanner returns no set.
\<close>

theorem scanner_sigil_counterexample:
  "GetBindvars (SQLVal ValArg ''v1'') = Some (Inr ([SQLVal ValArg ''v1''], {|''1''|}))
   \<and> bindvar_names (SQLVal ValArg ''v1'') = {}
   \<and> GetBindvars (ListArg '':'') = Some (Inl SliceBoundsOutOfRange)"
  by (simp add: GetBindvars_def Walk_Cons_plain [where visit = GetBindvars_visit]
      Walk_Cons_fault Walk_Nil GetBindvars_visit_def)

text \<open>
  C7, amended. For every statement whose placeholder nodes carry their sigils, \<^verbatim>\<open>GetBindvars\<close>
  returns exactly the set of the placeholder names referenced anywhere in the tree, from
  the scalar form \<^verbatim>\<open>:name\<close> and the list form \<^verbatim>\<open>::name\<close> alike, without the sigils, and
  leaves the statement as it was. A statement holding \<^verbatim>\<open>:v1\<close> and \<^verbatim>\<open>::v2\<close> gives the set
  of \<^verbatim>\<open>v1\<close> and \<^verbatim>\<open>v2\<close>.
\<close>

theorem GetBindvars_scans:
  "well_encoded stmt \<Longrightarrow>
   \<exists>names. GetBindvars stmt = Some (Inr ([stmt], names)) \<and> fset names = bindvar_names stmt"
  using GetBindvars_returns [of stmt] well_encoded_not_truncated [of stmt] well_encoded_scanned [of stmt]
  by auto

theorem GetBindvars_scans_witness:
  "well_encoded (Other ''and'' [SQLVal ValArg '':v1'', ListArg ''::v2''])
   \<and> (\<exists>names. GetBindvars (Other ''and'' [SQLVal ValArg '':v1'', ListArg ''::v2''])
         = Some (Inr ([Other ''and'' [SQLVal ValArg '':v1'', ListArg ''::v2'']], names))
       \<and> fset names = {''v1'', ''v2''})"
proof -
  have w: "well_encoded (Other ''and'' [SQLVal ValArg '':v1'', ListArg ''::v2''])" by simp
  from GetBindvars_scans [OF w] show ?thesis by (simp add: insert_commute)
qed

section \<open>One step of the callback of Normalize\<close>

lemma extends_refl: "extends prefix s s"
  by (auto simp: extends_def)

lemma extends_reserved: "extends prefix s s' \<Longrightarrow> nm |\<in>| reserved s \<Longrightarrow> nm |\<in>| reserved s'"
  by (auto simp: extends_def)

lemma extends_counter: "extends prefix s s' \<Longrightarrow> counter s \<le> counter s'"
  by (simp add: extends_def)

lemma extends_vals: "extends prefix s s' \<Longrightarrow> vals s key = Some nm \<Longrightarrow> vals s' key = Some nm"
  by (auto simp: extends_def map_le_def dom_def)

lemma extends_kept: "extends prefix s s' \<Longrightarrow> nm |\<in>| reserved s \<Longrightarrow> bindVars s' nm = bindVars s nm"
  by (simp add: extends_def)

lemma extends_untouched: "extends prefix s s' \<Longrightarrow> nm |\<notin>| reserved s' \<Longrightarrow> bindVars s' nm = bindVars s nm"
  by (simp add: extends_def)

lemma extends_new:
  "extends prefix s s' \<Longrightarrow> nm |\<in>| reserved s' \<Longrightarrow> nm |\<notin>| reserved s \<Longrightarrow>
   (\<exists>k. counter s \<le> k \<and> k < counter s' \<and> nm = prefix @ itoa k) \<and> bindVars s' nm \<noteq> None"
  unfolding extends_def by blast

lemma extends_probed:
  "extends prefix s s' \<Longrightarrow> counter s \<le> k \<Longrightarrow> k < counter s' \<Longrightarrow> prefix @ itoa k |\<in>| reserved s'"
  unfolding extends_def by blast

lemma extends_fresh_vals:
  "extends prefix s s' \<Longrightarrow> vals s' key = Some nm \<Longrightarrow> vals s key = None \<Longrightarrow>
   nm |\<in>| reserved s' \<and> nm |\<notin>| reserved s"
  unfolding extends_def by blast

lemma extends_trans:
  assumes a: "extends prefix s s1" and b: "extends prefix s1 s2"
  shows "extends prefix s s2"
proof -
  have 1: "reserved s |\<subseteq>| reserved s2" using a b by (auto simp: extends_def)
  have 2: "counter s \<le> counter s2" using a b by (auto simp: extends_def)
  have 3: "vals s \<subseteq>\<^sub>m vals s2" using a b by (auto simp: extends_def intro: map_le_trans)
  have 4: "\<forall>nm. nm |\<in>| reserved s \<longrightarrow> bindVars s2 nm = bindVars s nm"
    using extends_kept [OF a] extends_kept [OF b] extends_reserved [OF a] by simp
  have 5: "\<forall>nm. nm |\<notin>| reserved s2 \<longrightarrow> bindVars s2 nm = bindVars s nm"
    using extends_untouched [OF a] extends_untouched [OF b] extends_reserved [OF b] by metis
  have 6: "\<forall>nm. nm |\<in>| reserved s2 \<and> nm |\<notin>| reserved s \<longrightarrow>
          (\<exists>k. counter s \<le> k \<and> k < counter s2 \<and> nm = prefix @ itoa k) \<and> bindVars s2 nm \<noteq> None"
  proof (intro allI impI)
    fix nm assume nm: "nm |\<in>| reserved s2 \<and> nm |\<notin>| reserved s"
    show "(\<exists>k. counter s \<le> k \<and> k < counter s2 \<and> nm = prefix @ itoa k) \<and> bindVars s2 nm \<noteq> None"
    proof (cases "nm |\<in>| reserved s1")
      case True
      with nm extends_new [OF a, of nm]
      obtain k where k: "counter s \<le> k" "k < counter s1" "nm = prefix @ itoa k"
        and bd: "bindVars s1 nm \<noteq> None" by blast
      from True have eq: "bindVars s2 nm = bindVars s1 nm" by (rule extends_kept [OF b])
      from k extends_counter [OF b]
      have "counter s \<le> k \<and> k < counter s2 \<and> nm = prefix @ itoa k" by simp
      with bd eq show ?thesis by auto
    next
      case False
      with nm extends_new [OF b, of nm]
      obtain k where k: "counter s1 \<le> k" "k < counter s2" "nm = prefix @ itoa k"
        and bd: "bindVars s2 nm \<noteq> None" by blast
      from k extends_counter [OF a]
      have "counter s \<le> k \<and> k < counter s2 \<and> nm = prefix @ itoa k" by simp
      with bd show ?thesis by auto
    qed
  qed
  have 7: "\<forall>k. counter s \<le> k \<and> k < counter s2 \<longrightarrow> prefix @ itoa k |\<in>| reserved s2"
  proof (intro allI impI)
    fix k assume k: "counter s \<le> k \<and> k < counter s2"
    show "prefix @ itoa k |\<in>| reserved s2"
    proof (cases "k < counter s1")
      case True
      with k have "prefix @ itoa k |\<in>| reserved s1" by (auto intro: extends_probed [OF a])
      then show ?thesis by (rule extends_reserved [OF b])
    next
      case False
      with k show ?thesis by (auto intro: extends_probed [OF b])
    qed
  qed
  have 8: "\<forall>key nm. vals s2 key = Some nm \<and> vals s key = None \<longrightarrow>
          nm |\<in>| reserved s2 \<and> nm |\<notin>| reserved s"
  proof (intro allI impI)
    fix key nm assume h: "vals s2 key = Some nm \<and> vals s key = None"
    show "nm |\<in>| reserved s2 \<and> nm |\<notin>| reserved s"
    proof (cases "vals s1 key")
      case None
      with h extends_fresh_vals [OF b, of key nm]
      have "nm |\<in>| reserved s2 \<and> nm |\<notin>| reserved s1" by simp
      with extends_reserved [OF a, of nm] show ?thesis by auto
    next
      case (Some nm')
      with extends_vals [OF b] have "vals s2 key = Some nm'" by simp
      with h have "nm' = nm" by simp
      with Some h extends_fresh_vals [OF a, of key nm]
      have "nm |\<in>| reserved s1 \<and> nm |\<notin>| reserved s" by simp
      with extends_reserved [OF b, of nm] show ?thesis by auto
    qed
  qed
  from 1 2 3 4 5 6 7 8 show ?thesis unfolding extends_def by blast
qed

text \<open>The three things the callback does to a node.\<close>

lemma visit_scalar_old:
  "sqlToBindvar pf (SQLVal t v) = Some bval \<Longrightarrow> vals s (dedup_key bval v) = Some nm \<Longrightarrow>
   Normalize_visit pf prefix (SQLVal t v) s = Inr (True, None, SQLVal ValArg (CHR '':'' # nm), s)"
  by (simp add: Normalize_visit_def)

lemma visit_scalar_new:
  "sqlToBindvar pf (SQLVal t v) = Some bval \<Longrightarrow> vals s (dedup_key bval v) = None \<Longrightarrow>
   newName prefix (counter s) (reserved s) = (nm, c', r') \<Longrightarrow>
   Normalize_visit pf prefix (SQLVal t v) s =
     Inr (True, None, SQLVal ValArg (CHR '':'' # nm),
          s\<lparr>reserved := r', counter := c', vals := (vals s)(dedup_key bval v \<mapsto> nm),
            bindVars := (bindVars s)(nm \<mapsto> bval)\<rparr>)"
  by (simp add: Normalize_visit_def)

lemma visit_scalar_none:
  "sqlToBindvar pf (SQLVal t v) = None \<Longrightarrow>
   Normalize_visit pf prefix (SQLVal t v) s = Inr (True, None, SQLVal t v, s)"
  by (simp add: Normalize_visit_def)

lemma visit_list:
  "list_rewrite pf operator right = Some bvalues \<Longrightarrow>
   newName prefix (counter s) (reserved s) = (nm, c', r') \<Longrightarrow>
   Normalize_visit pf prefix (ComparisonExpr operator left right) s =
     Inr (True, None, ComparisonExpr operator left (ListArg (''::'' @ nm)),
          s\<lparr>reserved := r', counter := c',
            bindVars := (bindVars s)(nm \<mapsto> \<lparr>Type = Type_TUPLE, Value = [], Values = bvalues\<rparr>)\<rparr>)"
  by (auto simp: Normalize_visit_def list_rewrite_def split: if_splits SQLNode.splits)

lemma visit_comparison_none:
  "list_rewrite pf operator right = None \<Longrightarrow>
   Normalize_visit pf prefix (ComparisonExpr operator left right) s =
     Inr (True, None, ComparisonExpr operator left right, s)"
  by (auto simp: Normalize_visit_def list_rewrite_def split: if_splits SQLNode.splits)

lemma visit_other:
  "Normalize_visit pf prefix (ValTuple es) s = Inr (True, None, ValTuple es, s)"
  "Normalize_visit pf prefix (ListArg a) s = Inr (True, None, ListArg a, s)"
  "Normalize_visit pf prefix (Other k ns) s = Inr (True, None, Other k ns, s)"
  by (simp_all add: Normalize_visit_def)

text \<open>A step is one of: nothing, a fresh scalar binding, a reused name, a fresh list binding.\<close>

lemma visit_cases:
  obtains
    (same) "Normalize_visit pf prefix n s = Inr (True, None, n, s)"
      "case n of SQLVal t v \<Rightarrow> sqlToBindvar pf n = None
         | ComparisonExpr operator left right \<Rightarrow> list_rewrite pf operator right = None | _ \<Rightarrow> True"
  | (old) t v bval nm where "n = SQLVal t v" "sqlToBindvar pf n = Some bval"
      "vals s (dedup_key bval v) = Some nm"
      "Normalize_visit pf prefix n s = Inr (True, None, SQLVal ValArg (CHR '':'' # nm), s)"
  | (new) t v bval k where "n = SQLVal t v" "sqlToBindvar pf n = Some bval"
      "vals s (dedup_key bval v) = None"
      "counter s \<le> k" "prefix @ itoa k |\<notin>| reserved s"
      "\<forall>j. counter s \<le> j \<and> j < k \<longrightarrow> prefix @ itoa j |\<in>| reserved s"
      "Normalize_visit pf prefix n s =
         Inr (True, None, SQLVal ValArg (CHR '':'' # prefix @ itoa k),
              s\<lparr>reserved := finsert (prefix @ itoa k) (reserved s), counter := k + 1,
                vals := (vals s)(dedup_key bval v \<mapsto> prefix @ itoa k),
                bindVars := (bindVars s)(prefix @ itoa k \<mapsto> bval)\<rparr>)"
  | (list) operator left right bvalues k where "n = ComparisonExpr operator left right"
      "list_rewrite pf operator right = Some bvalues"
      "counter s \<le> k" "prefix @ itoa k |\<notin>| reserved s"
      "\<forall>j. counter s \<le> j \<and> j < k \<longrightarrow> prefix @ itoa j |\<in>| reserved s"
      "Normalize_visit pf prefix n s =
         Inr (True, None, ComparisonExpr operator left (ListArg (''::'' @ prefix @ itoa k)),
              s\<lparr>reserved := finsert (prefix @ itoa k) (reserved s), counter := k + 1,
                bindVars := (bindVars s)(prefix @ itoa k \<mapsto>
                  \<lparr>Type = Type_TUPLE, Value = [], Values = bvalues\<rparr>)\<rparr>)"
proof -
  from newName_first_free [of "counter s" prefix "reserved s"] obtain k where
    k: "counter s \<le> k"
    "newName prefix (counter s) (reserved s)
         = (prefix @ itoa k, k + 1, finsert (prefix @ itoa k) (reserved s))"
    "prefix @ itoa k |\<notin>| reserved s"
    "\<forall>j. counter s \<le> j \<and> j < k \<longrightarrow> prefix @ itoa j |\<in>| reserved s"
    by blast
  show thesis
  proof (cases n)
    case (SQLVal t v)
    show ?thesis
    proof (cases "sqlToBindvar pf (SQLVal t v)")
      case None
      with SQLVal same show ?thesis by (simp add: visit_scalar_none)
    next
      case (Some bval)
      show ?thesis
      proof (cases "vals s (dedup_key bval v)")
        case None
        from visit_scalar_new [OF Some None k(2)] SQLVal Some None k new [of t v bval k]
        show ?thesis by simp
      next
        case (Some nm)
        from visit_scalar_old [OF \<open>sqlToBindvar pf (SQLVal t v) = Some bval\<close> Some]
          SQLVal \<open>sqlToBindvar pf (SQLVal t v) = Some bval\<close> Some old [of t v bval nm]
        show ?thesis by simp
      qed
    qed
  next
    case (ComparisonExpr operator left right)
    show ?thesis
    proof (cases "list_rewrite pf operator right")
      case None
      with ComparisonExpr same show ?thesis by (simp add: visit_comparison_none)
    next
      case (Some bvalues)
      from visit_list [OF Some k(2)] ComparisonExpr Some k list [of operator left right bvalues k]
      show ?thesis by simp
    qed
  next
    case (ValTuple es)
    with same show ?thesis by (simp add: visit_other)
  next
    case (ListArg a)
    with same show ?thesis by (simp add: visit_other)
  next
    case (Other kind ns)
    with same show ?thesis by (simp add: visit_other)
  qed
qed

lemma visit_steady: "steady (Normalize_visit pf prefix)"
  unfolding steady_def
proof (intro allI)
  fix n s
  show "\<exists>n' s'. Normalize_visit pf prefix n s = Inr (True, None, n', s') \<and>
       sum_list (map nsize (children n')) \<le> sum_list (map nsize (children n))"
  proof (cases rule: visit_cases [of pf prefix n s])
    case same
    then show ?thesis by auto
  next
    case (old t v bval nm)
    then show ?thesis by auto
  next
    case (new t v bval k)
    then show ?thesis by auto
  next
    case (list operator left right bvalues k)
    then show ?thesis by (cases right) auto
  qed
qed

lemma visit_extends:
  assumes "Normalize_visit pf prefix n s = Inr (kontinue, err, n', s')"
  shows "extends prefix s s'"
proof (cases rule: visit_cases [of pf prefix n s])
  case same
  with assms show ?thesis by (simp add: extends_refl)
next
  case (old t v bval nm)
  with assms show ?thesis by (simp add: extends_refl)
next
  case (new t v bval k)
  with assms have s': "s' = s\<lparr>reserved := finsert (prefix @ itoa k) (reserved s), counter := k + 1,
                vals := (vals s)(dedup_key bval v \<mapsto> prefix @ itoa k),
                bindVars := (bindVars s)(prefix @ itoa k \<mapsto> bval)\<rparr>" by simp
  have "\<forall>ka. counter s \<le> ka \<and> ka < k + 1 \<longrightarrow> prefix @ itoa ka |\<in>| finsert (prefix @ itoa k) (reserved s)"
    using new(6) by (metis finsert_iff zle_add1_eq_le order_le_less)
  with new show ?thesis unfolding extends_def s'
    by (auto simp: map_le_def)
next
  case (list operator left right bvalues k)
  with assms have s': "s' = s\<lparr>reserved := finsert (prefix @ itoa k) (reserved s), counter := k + 1,
                bindVars := (bindVars s)(prefix @ itoa k \<mapsto>
                  \<lparr>Type = Type_TUPLE, Value = [], Values = bvalues\<rparr>)\<rparr>" by simp
  have "\<forall>ka. counter s \<le> ka \<and> ka < k + 1 \<longrightarrow> prefix @ itoa ka |\<in>| finsert (prefix @ itoa k) (reserved s)"
    using list(5) by (metis finsert_iff zle_add1_eq_le order_le_less)
  with list show ?thesis unfolding extends_def s'
    by (auto simp: map_le_def)
qed

section \<open>What a walk of Normalize keeps\<close>

lemma walks_rel:
  assumes step: "\<And>n s n' s'. visit n s = Inr (True, None, n', s') \<Longrightarrow> R s s'"
    and refl: "\<And>s. R s s"
    and trans: "\<And>a b c. R a b \<Longrightarrow> R b c \<Longrightarrow> R a c"
  shows "walks visit ns s ns' s' \<Longrightarrow> R s s'"
proof (induction rule: walks.induct)
  case (walks_Nil s)
  show ?case by (rule refl)
next
  case (walks_Cons n s n' s1 cs s2 ns ns' s3)
  from step [OF walks_Cons(1)] walks_Cons(4) have "R s s2" by (rule trans)
  then show ?case using walks_Cons(5) by (rule trans)
qed

lemma walks_inv:
  assumes step: "\<And>n s n' s'. visit n s = Inr (True, None, n', s') \<Longrightarrow> I s \<Longrightarrow> I s'"
  shows "walks visit ns s ns' s' \<Longrightarrow> I s \<Longrightarrow> I s'"
  by (induction rule: walks.induct) (auto intro: step)

lemma walks_extends:
  "walks (Normalize_visit pf prefix) ns s ns' s' \<Longrightarrow> extends prefix s s'"
  by (rule walks_rel [where R = "extends prefix"])
     (auto intro: visit_extends extends_refl extends_trans)

lemma consistentD:
  "consistent s \<Longrightarrow> vals s key = Some nm \<Longrightarrow>
   nm |\<in>| reserved s \<and> (\<exists>b. bindVars s nm = Some b \<and> Values b = [] \<and> dedup_key b (Value b) = key)"
  unfolding consistent_def by blast

lemma consistent_inj:
  "consistent s \<Longrightarrow> vals s key = Some nm \<Longrightarrow> vals s key' = Some nm \<Longrightarrow> key = key'"
  unfolding consistent_def inj_on_def by (metis domI)

lemma sqlToBindvar_Value:
  "sqlToBindvar pf (SQLVal t v) = Some b \<Longrightarrow> Value b = v \<and> Values b = [] \<and> Type b \<noteq> Type_TUPLE"
  by (cases t)
     (auto simp: sqlToBindvar_def NewValue_def ValueBindVariable_def split: option.splits)

lemma visit_consistent:
  assumes v: "Normalize_visit pf prefix n s = Inr (kontinue, err, n', s')" and c: "consistent s"
  shows "consistent s'"
proof (cases rule: visit_cases [of pf prefix n s])
  case same
  with v c show ?thesis by simp
next
  case (old t v bval nm)
  with v c show ?thesis by simp
next
  case (new t va bval k)
  with v have s': "s' = s\<lparr>reserved := finsert (prefix @ itoa k) (reserved s), counter := k + 1,
                vals := (vals s)(dedup_key bval va \<mapsto> prefix @ itoa k),
                bindVars := (bindVars s)(prefix @ itoa k \<mapsto> bval)\<rparr>" by simp
  from new have bv: "Value bval = va" "Values bval = []" by (auto dest: sqlToBindvar_Value)
  have fresh: "\<And>key nm. vals s key = Some nm \<Longrightarrow> nm \<noteq> prefix @ itoa k"
    using consistentD [OF c] new(5) by blast
  have 1: "\<forall>key nm. vals s' key = Some nm \<longrightarrow>
        nm |\<in>| reserved s'
        \<and> (\<exists>b. bindVars s' nm = Some b \<and> Values b = [] \<and> dedup_key b (Value b) = key)"
  proof (intro allI impI)
    fix key nm assume h: "vals s' key = Some nm"
    show "nm |\<in>| reserved s' \<and> (\<exists>b. bindVars s' nm = Some b \<and> Values b = [] \<and> dedup_key b (Value b) = key)"
    proof (cases "key = dedup_key bval va")
      case True
      with h bv show ?thesis by (simp add: s')
    next
      case False
      with h have o: "vals s key = Some nm" by (simp add: s')
      from fresh [OF o] consistentD [OF c o] show ?thesis by (simp add: s')
    qed
  qed
  have 2: "inj_on (vals s') (dom (vals s'))"
  proof (rule inj_onI)
    fix x y assume x: "x \<in> dom (vals s')" and y: "y \<in> dom (vals s')" and e: "vals s' x = vals s' y"
    show "x = y"
    proof (cases "x = dedup_key bval va")
      case True
      show ?thesis
      proof (cases "y = dedup_key bval va")
        case True
        with \<open>x = dedup_key bval va\<close> show ?thesis by simp
      next
        case False
        with y obtain nm where "vals s y = Some nm" by (auto simp: s')
        with fresh [OF this] e True False show ?thesis by (simp add: s')
      qed
    next
      case False
      with x obtain nm where ox: "vals s x = Some nm" by (auto simp: s')
      show ?thesis
      proof (cases "y = dedup_key bval va")
        case True
        with fresh [OF ox] ox e False show ?thesis by (simp add: s')
      next
        case nf: False
        with e False ox have "vals s y = Some nm" by (simp add: s')
        with ox consistent_inj [OF c] show ?thesis by blast
      qed
    qed
  qed
  from 1 2 show ?thesis unfolding consistent_def by blast
next
  case (list operator left right bvalues k)
  with v have s': "s' = s\<lparr>reserved := finsert (prefix @ itoa k) (reserved s), counter := k + 1,
                bindVars := (bindVars s)(prefix @ itoa k \<mapsto>
                  \<lparr>Type = Type_TUPLE, Value = [], Values = bvalues\<rparr>)\<rparr>" by simp
  have fresh: "\<And>key nm. vals s key = Some nm \<Longrightarrow> nm \<noteq> prefix @ itoa k"
    using consistentD [OF c] list(4) by blast
  have 1: "\<forall>key nm. vals s' key = Some nm \<longrightarrow>
        nm |\<in>| reserved s'
        \<and> (\<exists>b. bindVars s' nm = Some b \<and> Values b = [] \<and> dedup_key b (Value b) = key)"
  proof (intro allI impI)
    fix key nm assume h: "vals s' key = Some nm"
    then have o: "vals s key = Some nm" by (simp add: s')
    from fresh [OF o] consistentD [OF c o]
    show "nm |\<in>| reserved s' \<and> (\<exists>b. bindVars s' nm = Some b \<and> Values b = [] \<and> dedup_key b (Value b) = key)"
      by (simp add: s')
  qed
  have 2: "inj_on (vals s') (dom (vals s'))"
    using c by (simp add: s' consistent_def)
  from 1 2 show ?thesis unfolding consistent_def by blast
qed

lemma walks_consistent:
  "walks (Normalize_visit pf prefix) ns s ns' s' \<Longrightarrow> consistent s \<Longrightarrow> consistent s'"
  by (rule walks_inv [where I = consistent and visit = "Normalize_visit pf prefix"])
     (auto intro: visit_consistent)

section \<open>The rewritten statement\<close>

lemma rewritten_extends:
  "rewritten pf s n n' \<Longrightarrow> extends prefix s s2 \<Longrightarrow> rewritten pf s2 n n'"
proof (induction n arbitrary: n')
  case (SQLVal t v)
  then show ?case
    by (auto split: option.splits dest: extends_vals)
next
  case (ComparisonExpr operator left right)
  from ComparisonExpr.prems(1) obtain left' right' where
    n': "n' = ComparisonExpr operator left' right'"
    by (cases n') auto
  show ?case
  proof (cases "list_rewrite pf operator right")
    case None
    with ComparisonExpr n' show ?thesis by simp
  next
    case (Some bvalues)
    with ComparisonExpr.prems(1) n' obtain a where a: "right' = ListArg a"
      by (cases right') auto
    with Some ComparisonExpr n' show ?thesis
      by (auto dest: extends_reserved simp: extends_kept)
  qed
next
  case (ValTuple exprs)
  from ValTuple.prems(1) obtain exprs' where n': "n' = ValTuple exprs'"
    by (cases n') auto
  with ValTuple.prems have "list_all2 (rewritten pf s) exprs exprs'" by simp
  then have "list_all2 (rewritten pf s2) exprs exprs'"
    by (rule list.rel_mono_strong) (auto intro: ValTuple.IH ValTuple.prems(2))
  with n' show ?case by simp
next
  case (ListArg a)
  then show ?case by simp
next
  case (Other kind nodes)
  from Other.prems(1) obtain nodes' where n': "n' = Other kind nodes'"
    by (cases n') auto
  with Other.prems have "list_all2 (rewritten pf s) nodes nodes'" by simp
  then have "list_all2 (rewritten pf s2) nodes nodes'"
    by (rule list.rel_mono_strong) (auto intro: Other.IH Other.prems(2))
  with n' show ?case by simp
qed

lemma list_rewrite_Some_tuple:
  "list_rewrite pf operator right = Some bvalues \<Longrightarrow> \<exists>exprs. right = ValTuple exprs"
  by (cases right) (auto simp: list_rewrite_def split: if_splits)

lemma node_rewritten:
  assumes v: "Normalize_visit pf prefix n s = Inr (True, None, n1, s1)"
    and cs: "list_all2 (rewritten pf s2) (children n1) cs"
    and e: "extends prefix s1 s2"
  shows "rewritten pf s2 n (with_children n1 cs)"
proof (cases rule: visit_cases [of pf prefix n s])
  case same
  with v cs show ?thesis
    by (cases n) (auto simp: list_all2_Cons1)
next
  case (old t va bval nm)
  with v cs extends_vals [OF e, of "dedup_key bval va" nm] show ?thesis
    by auto
next
  case (new t va bval k)
  with v cs extends_vals [OF e, of "dedup_key bval va" "prefix @ itoa k"] show ?thesis
    by auto
next
  case (list operator left right bvalues k)
  with v have n1: "n1 = ComparisonExpr operator left (ListArg (''::'' @ prefix @ itoa k))"
    and s1: "s1 = s\<lparr>reserved := finsert (prefix @ itoa k) (reserved s), counter := k + 1,
                bindVars := (bindVars s)(prefix @ itoa k \<mapsto>
                  \<lparr>Type = Type_TUPLE, Value = [], Values = bvalues\<rparr>)\<rparr>" by simp_all
  from cs n1 obtain left' where c: "cs = [left', ListArg (''::'' @ prefix @ itoa k)]"
    and l: "rewritten pf s2 left left'"
    by (auto simp: list_all2_Cons1)
  have r1: "prefix @ itoa k |\<in>| reserved s1" by (simp add: s1)
  then have r2: "prefix @ itoa k |\<in>| reserved s2" by (rule extends_reserved [OF e])
  from extends_kept [OF e r1]
  have b: "bindVars s2 (prefix @ itoa k) = Some \<lparr>Type = Type_TUPLE, Value = [], Values = bvalues\<rparr>"
    by (simp add: s1)
  from list(1,2) n1 c l r2 b show ?thesis by simp
qed

lemma walks_rewritten:
  "walks (Normalize_visit pf prefix) ns s ns' s' \<Longrightarrow> consistent s \<Longrightarrow>
   list_all2 (rewritten pf s') ns ns'"
proof (induction rule: walks.induct)
  case (walks_Nil s)
  show ?case by simp
next
  case (walks_Cons n s n1 s1 cs s2 ns ns' s3)
  from walks_Cons(1,6) have c1: "consistent s1" by (rule visit_consistent)
  with walks_Cons(2) have c2: "consistent s2" by (rule walks_consistent)
  from walks_Cons(2) have e12: "extends prefix s1 s2" by (rule walks_extends)
  from walks_Cons(3) have e23: "extends prefix s2 s3" by (rule walks_extends)
  from walks_Cons(1) walks_Cons(4) [OF c1] e12
  have "rewritten pf s2 n (with_children n1 cs)" by (rule node_rewritten)
  then have "rewritten pf s3 n (with_children n1 cs)" using e23 by (rule rewritten_extends)
  with walks_Cons(5) [OF c2] show ?case by simp
qed

lemma not_in_vals_extends:
  assumes e: "extends prefix s s'" and r: "x |\<in>| reserved s" and n: "x \<notin> ran (vals s)"
  shows "x \<notin> ran (vals s')"
proof
  assume "x \<in> ran (vals s')"
  then obtain key where k: "vals s' key = Some x" by (auto simp: ran_def)
  show False
  proof (cases "vals s key")
    case None
    with extends_fresh_vals [OF e k] r show False by simp
  next
    case (Some x')
    with extends_vals [OF e] k have "x' = x" by fastforce
    with Some n show False by (auto simp: ran_def)
  qed
qed

lemma node_names:
  assumes v: "Normalize_visit pf prefix n s = Inr (True, None, n1, s1)"
    and cs: "list_all2 (rewritten pf s2) (children n1) cs"
    and c: "consistent s"
  shows "\<exists>own. list_names n (with_children n1 cs) = concat (map2 list_names (children n1) cs) @ own
           \<and> distinct own
           \<and> (\<forall>x \<in> set own. x |\<in>| reserved s1 \<and> x |\<notin>| reserved s \<and> x \<notin> ran (vals s1))
           \<and> (\<forall>x. x |\<in>| reserved s1 \<and> x |\<notin>| reserved s \<longrightarrow> x \<in> ran (vals s1) \<or> x \<in> set own)"
proof (cases rule: visit_cases [of pf prefix n s])
  case same
  with v cs have "list_names n (with_children n1 cs) = concat (map2 list_names (children n1) cs) @ []"
    by (cases n) (auto simp: list_all2_Cons1 split: SQLNode.splits)
  moreover from same v have "s1 = s" by simp
  ultimately show ?thesis by (intro exI [of _ "[]"]) simp
next
  case (old t va bval nm)
  with v cs have "list_names n (with_children n1 cs) = concat (map2 list_names (children n1) cs) @ []"
    by auto
  moreover from old v have "s1 = s" by simp
  ultimately show ?thesis by (intro exI [of _ "[]"]) simp
next
  case (new t va bval k)
  with v cs have "list_names n (with_children n1 cs) = concat (map2 list_names (children n1) cs) @ []"
    by auto
  moreover from new v have "\<forall>x. x |\<in>| reserved s1 \<and> x |\<notin>| reserved s \<longrightarrow> x \<in> ran (vals s1)"
    by (auto simp: ran_def)
  ultimately show ?thesis by (intro exI [of _ "[]"]) simp
next
  case (list operator left right bvalues k)
  with v have n1: "n1 = ComparisonExpr operator left (ListArg (''::'' @ prefix @ itoa k))"
    and s1: "s1 = s\<lparr>reserved := finsert (prefix @ itoa k) (reserved s), counter := k + 1,
                bindVars := (bindVars s)(prefix @ itoa k \<mapsto>
                  \<lparr>Type = Type_TUPLE, Value = [], Values = bvalues\<rparr>)\<rparr>" by simp_all
  from cs n1 obtain left' where cs': "cs = [left', ListArg (''::'' @ prefix @ itoa k)]"
    by (auto simp: list_all2_Cons1)
  from list(2) obtain exprs where r: "right = ValTuple exprs"
    by (auto dest: list_rewrite_Some_tuple)
  have eq: "list_names n (with_children n1 cs)
      = concat (map2 list_names (children n1) cs) @ [prefix @ itoa k]"
    by (simp add: list(1) n1 cs' r)
  have "prefix @ itoa k \<notin> ran (vals s1)"
  proof
    assume "prefix @ itoa k \<in> ran (vals s1)"
    then obtain key where "vals s key = Some (prefix @ itoa k)" by (auto simp: ran_def s1)
    with consistentD [OF c this] list(4) show False by simp
  qed
  with list(4) have "\<forall>x \<in> set [prefix @ itoa k]. x |\<in>| reserved s1 \<and> x |\<notin>| reserved s \<and> x \<notin> ran (vals s1)"
    by (simp add: s1)
  moreover have "\<forall>x. x |\<in>| reserved s1 \<and> x |\<notin>| reserved s \<longrightarrow> x \<in> set [prefix @ itoa k]"
    by (auto simp: s1)
  ultimately show ?thesis using eq by (intro exI [of _ "[prefix @ itoa k]"]) simp
qed

lemma distinct_append3:
  "distinct a \<Longrightarrow> distinct b \<Longrightarrow> distinct c \<Longrightarrow> set a \<inter> set b = {} \<Longrightarrow>
   set a \<inter> set c = {} \<Longrightarrow> set b \<inter> set c = {} \<Longrightarrow> distinct ((a @ b) @ c)"
  by auto

lemma ball_append3:
  "\<forall>x \<in> set a. P x \<Longrightarrow> \<forall>x \<in> set b. P x \<Longrightarrow> \<forall>x \<in> set c. P x \<Longrightarrow>
   \<forall>x \<in> set ((a @ b) @ c). P x"
  by auto

lemma walks_list_names:
  "walks (Normalize_visit pf prefix) ns s ns' s' \<Longrightarrow> consistent s \<Longrightarrow>
   distinct (concat (map2 list_names ns ns'))
   \<and> (\<forall>x \<in> set (concat (map2 list_names ns ns')).
        x |\<in>| reserved s' \<and> x |\<notin>| reserved s \<and> x \<notin> ran (vals s'))"
proof (induction rule: walks.induct)
  case (walks_Nil s)
  show ?case by simp
next
  case (walks_Cons n s n1 s1 cs s2 ns ns' s3)
  from walks_Cons(1,6) have c1: "consistent s1" by (rule visit_consistent)
  with walks_Cons(2) have c2: "consistent s2" by (rule walks_consistent)
  from walks_Cons(1) have e01: "extends prefix s s1" by (rule visit_extends)
  from walks_Cons(2) have e12: "extends prefix s1 s2" by (rule walks_extends)
  from walks_Cons(3) have e23: "extends prefix s2 s3" by (rule walks_extends)
  from walks_Cons(2) c1 have rw: "list_all2 (rewritten pf s2) (children n1) cs"
    by (rule walks_rewritten)
  let ?Lc = "concat (map2 list_names (children n1) cs)"
  let ?Lr = "concat (map2 list_names ns ns')"
  from node_names [OF walks_Cons(1) rw walks_Cons(6)] obtain own where
    eq: "list_names n (with_children n1 cs) = ?Lc @ own" and
    d_own: "distinct own" and
    own: "\<forall>x \<in> set own. x |\<in>| reserved s1 \<and> x |\<notin>| reserved s \<and> x \<notin> ran (vals s1)"
    by blast
  from walks_Cons(4) [OF c1] have d_c: "distinct ?Lc" and
    lc: "\<forall>x \<in> set ?Lc. x |\<in>| reserved s2 \<and> x |\<notin>| reserved s1 \<and> x \<notin> ran (vals s2)"
    by simp_all
  from walks_Cons(5) [OF c2] have d_r: "distinct ?Lr" and
    lr: "\<forall>x \<in> set ?Lr. x |\<in>| reserved s3 \<and> x |\<notin>| reserved s2 \<and> x \<notin> ran (vals s3)"
    by simp_all
  have own3: "\<forall>x \<in> set own. x |\<in>| reserved s2 \<and> x |\<in>| reserved s3 \<and> x |\<notin>| reserved s \<and> x \<notin> ran (vals s3)"
  proof
    fix x assume x: "x \<in> set own"
    with own have a: "x |\<in>| reserved s1" "x |\<notin>| reserved s" "x \<notin> ran (vals s1)" by auto
    from extends_trans [OF e12 e23] a(1) a(3) have "x \<notin> ran (vals s3)"
      by (rule not_in_vals_extends)
    with a extends_reserved [OF e12] extends_reserved [OF e23]
    show "x |\<in>| reserved s2 \<and> x |\<in>| reserved s3 \<and> x |\<notin>| reserved s \<and> x \<notin> ran (vals s3)" by blast
  qed
  have lc3: "\<forall>x \<in> set ?Lc. x |\<in>| reserved s2 \<and> x |\<in>| reserved s3 \<and> x |\<notin>| reserved s1
      \<and> x |\<notin>| reserved s \<and> x \<notin> ran (vals s3)"
  proof
    fix x assume x: "x \<in> set ?Lc"
    with lc have a: "x |\<in>| reserved s2" "x |\<notin>| reserved s1" "x \<notin> ran (vals s2)" by auto
    from e23 a(1) a(3) have "x \<notin> ran (vals s3)" by (rule not_in_vals_extends)
    with a extends_reserved [OF e01] extends_reserved [OF e23]
    show "x |\<in>| reserved s2 \<and> x |\<in>| reserved s3 \<and> x |\<notin>| reserved s1
      \<and> x |\<notin>| reserved s \<and> x \<notin> ran (vals s3)" by blast
  qed
  have lr3: "\<forall>x \<in> set ?Lr. x |\<in>| reserved s3 \<and> x |\<notin>| reserved s2 \<and> x |\<notin>| reserved s \<and> x \<notin> ran (vals s3)"
    using lr extends_reserved [OF e01] extends_reserved [OF e12] by blast
  have disj: "set ?Lc \<inter> set own = {}" "set ?Lc \<inter> set ?Lr = {}" "set own \<inter> set ?Lr = {}"
    using own own3 lc3 lr3 by blast+
  have whole: "concat (map2 list_names (n # ns) (with_children n1 cs # ns')) = (?Lc @ own) @ ?Lr"
    by (simp add: eq)
  have "distinct ((?Lc @ own) @ ?Lr)"
    using d_c d_own d_r disj by (rule distinct_append3)
  moreover have "\<forall>x \<in> set ((?Lc @ own) @ ?Lr). x |\<in>| reserved s3 \<and> x |\<notin>| reserved s \<and> x \<notin> ran (vals s3)"
  proof (rule ball_append3)
    show "\<forall>x \<in> set ?Lc. x |\<in>| reserved s3 \<and> x |\<notin>| reserved s \<and> x \<notin> ran (vals s3)"
      using lc3 by blast
    show "\<forall>x \<in> set own. x |\<in>| reserved s3 \<and> x |\<notin>| reserved s \<and> x \<notin> ran (vals s3)"
      using own3 by blast
    show "\<forall>x \<in> set ?Lr. x |\<in>| reserved s3 \<and> x |\<notin>| reserved s \<and> x \<notin> ran (vals s3)"
      using lr3 by blast
  qed
  ultimately show ?case unfolding whole by blast
qed

lemma ran_vals_extends: "extends prefix s s' \<Longrightarrow> x \<in> ran (vals s) \<Longrightarrow> x \<in> ran (vals s')"
  by (auto simp: ran_def dest: extends_vals)

lemma walks_new_names:
  "walks (Normalize_visit pf prefix) ns s ns' s' \<Longrightarrow> consistent s \<Longrightarrow>
   \<forall>x. x |\<in>| reserved s' \<and> x |\<notin>| reserved s \<longrightarrow>
     x \<in> ran (vals s') \<or> x \<in> set (concat (map2 list_names ns ns'))"
proof (induction rule: walks.induct)
  case (walks_Nil s)
  show ?case by simp
next
  case (walks_Cons n s n1 s1 cs s2 ns ns' s3)
  from walks_Cons(1,6) have c1: "consistent s1" by (rule visit_consistent)
  with walks_Cons(2) have c2: "consistent s2" by (rule walks_consistent)
  from walks_Cons(2) have e12: "extends prefix s1 s2" by (rule walks_extends)
  from walks_Cons(3) have e23: "extends prefix s2 s3" by (rule walks_extends)
  from walks_Cons(2) c1 have rw: "list_all2 (rewritten pf s2) (children n1) cs"
    by (rule walks_rewritten)
  let ?Lc = "concat (map2 list_names (children n1) cs)"
  let ?Lr = "concat (map2 list_names ns ns')"
  from node_names [OF walks_Cons(1) rw walks_Cons(6)] obtain own where
    eq: "list_names n (with_children n1 cs) = ?Lc @ own" and
    own: "\<forall>x. x |\<in>| reserved s1 \<and> x |\<notin>| reserved s \<longrightarrow> x \<in> ran (vals s1) \<or> x \<in> set own"
    by blast
  have "concat (map2 list_names (n # ns) (with_children n1 cs # ns')) = (?Lc @ own) @ ?Lr"
    by (simp add: eq)
  then have whole: "set (concat (map2 list_names (n # ns) (with_children n1 cs # ns')))
      = set ?Lc \<union> set own \<union> set ?Lr"
    by (simp only: set_append)
  show ?case unfolding whole
  proof (intro allI impI)
    fix x assume x: "x |\<in>| reserved s3 \<and> x |\<notin>| reserved s"
    show "x \<in> ran (vals s3) \<or> x \<in> set ?Lc \<union> set own \<union> set ?Lr"
    proof (cases "x |\<in>| reserved s1")
      case True
      with x own have "x \<in> ran (vals s1) \<or> x \<in> set own" by blast
      with ran_vals_extends [OF extends_trans [OF e12 e23]] show ?thesis by blast
    next
      case n1: False
      show ?thesis
      proof (cases "x |\<in>| reserved s2")
        case True
        with n1 walks_Cons(4) [OF c1] have "x \<in> ran (vals s2) \<or> x \<in> set ?Lc" by blast
        with ran_vals_extends [OF e23] show ?thesis by blast
      next
        case False
        with x walks_Cons(5) [OF c2] show ?thesis by blast
      qed
    qed
  qed
qed

section \<open>A whole run of Normalize\<close>

lemma run_fault:
  "truncated stmt \<Longrightarrow> Normalize_run pf stmt bindVars0 prefix = Some (Inl SliceBoundsOutOfRange)"
  by (simp add: Normalize_run_def GetBindvars_fault)

lemma run_walks:
  assumes "\<not> truncated stmt"
  obtains reserved0 stmt' st' where
    "GetBindvars stmt = Some (Inr ([stmt], reserved0))"
    "fset reserved0 = scanned stmt"
    "walks (Normalize_visit pf prefix) [stmt]
       \<lparr>reserved = reserved0, counter = 1, vals = Map.empty, bindVars = bindVars0\<rparr> [stmt'] st'"
    "Normalize_run pf stmt bindVars0 prefix = Some (Inr (None, [stmt'], st'))"
proof -
  from GetBindvars_returns [OF assms] obtain reserved0 where
    g: "GetBindvars stmt = Some (Inr ([stmt], reserved0))" and f: "fset reserved0 = scanned stmt"
    by blast
  let ?s0 = "\<lparr>reserved = reserved0, counter = 1, vals = Map.empty, bindVars = bindVars0\<rparr>"
  from steady_walks [OF visit_steady, of pf prefix "[stmt]" ?s0] obtain ns' st' where
    w: "walks (Normalize_visit pf prefix) [stmt] ?s0 ns' st'" by blast
  from walks_length [OF w] obtain stmt' where ns': "ns' = [stmt']"
    by (cases ns') auto
  from walks_Walk [OF w] g have "Normalize_run pf stmt bindVars0 prefix = Some (Inr (None, ns', st'))"
    by (simp add: Normalize_run_def)
  with g f w ns' that show thesis by blast
qed

lemma run_inverse:
  assumes r: "Normalize_run pf stmt bindVars0 prefix = Some (Inr (err, nodes, st'))"
  obtains reserved0 stmt' where
    "\<not> truncated stmt"
    "GetBindvars stmt = Some (Inr ([stmt], reserved0))"
    "fset reserved0 = scanned stmt"
    "err = None" "nodes = [stmt']"
    "walks (Normalize_visit pf prefix) [stmt]
       \<lparr>reserved = reserved0, counter = 1, vals = Map.empty, bindVars = bindVars0\<rparr> [stmt'] st'"
proof -
  have nt: "\<not> truncated stmt"
  proof
    assume "truncated stmt"
    from run_fault [OF this, of pf bindVars0 prefix] r show False by simp
  qed
  from run_walks [OF nt, of pf prefix bindVars0] r that nt show thesis
    by (metis Inr_inject option.inject prod.inject)
qed

lemma consistent_initial:
  "consistent \<lparr>reserved = reserved0, counter = 1, vals = Map.empty, bindVars = bindVars0\<rparr>"
  by (simp add: consistent_def)

lemma bindvar_names_scanned: "bindvar_names n \<subseteq> scanned n"
  by (induction n) auto

section \<open>Places in a statement\<close>

lemma rewritten_at:
  "rewritten pf st n n' \<Longrightarrow> node_at n path = Some m \<Longrightarrow> node_at n' path = Some m' \<Longrightarrow>
   rewritten pf st m m' \<or> (\<exists>exprs a. m = ValTuple exprs \<and> m' = ListArg a)"
proof (induction path arbitrary: n n')
  case Nil
  then show ?case by simp
next
  case (Cons i path)
  from Cons.prems(2) have i: "i < length (children n)"
    and m: "node_at (children n ! i) path = Some m" by (auto split: if_splits)
  from Cons.prems(3) have i': "i < length (children n')"
    and m': "node_at (children n' ! i) path = Some m'" by (auto split: if_splits)
  show ?case
  proof (cases n)
    case (SQLVal t v)
    with i show ?thesis by simp
  next
    case (ListArg a)
    with i show ?thesis by simp
  next
    case (ValTuple exprs)
    with Cons.prems(1) obtain exprs' where n': "n' = ValTuple exprs'"
      and all: "list_all2 (rewritten pf st) exprs exprs'" by (cases n') auto
    from all i ValTuple have "rewritten pf st (children n ! i) (children n' ! i)"
      by (simp add: n' list_all2_nthD)
    from Cons.IH [OF this m m'] show ?thesis .
  next
    case (Other kind nodes)
    with Cons.prems(1) obtain nodes' where n': "n' = Other kind nodes'"
      and all: "list_all2 (rewritten pf st) nodes nodes'" by (cases n') auto
    from all i Other have "rewritten pf st (children n ! i) (children n' ! i)"
      by (simp add: n' list_all2_nthD)
    from Cons.IH [OF this m m'] show ?thesis .
  next
    case (ComparisonExpr operator left right)
    with Cons.prems(1) obtain left' right' where n': "n' = ComparisonExpr operator left' right'"
      and l: "rewritten pf st left left'" by (cases n') auto
    show ?thesis
    proof (cases "i = 0")
      case True
      with l ComparisonExpr n' have "rewritten pf st (children n ! i) (children n' ! i)" by simp
      from Cons.IH [OF this m m'] show ?thesis .
    next
      case False
      with i ComparisonExpr have i1: "i = 1" by simp
      show ?thesis
      proof (cases "list_rewrite pf operator right")
        case None
        with Cons.prems(1) ComparisonExpr n' i1
        have "rewritten pf st (children n ! i) (children n' ! i)" by simp
        from Cons.IH [OF this m m'] show ?thesis .
      next
        case (Some bvalues)
        with Cons.prems(1) ComparisonExpr n' obtain a where a: "right' = ListArg a"
          by (cases right') auto
        from Some obtain exprs where r: "right = ValTuple exprs"
          by (auto dest: list_rewrite_Some_tuple)
        from m' n' a i1 have p: "path = []" and "m' = ListArg a"
          by (cases path; simp)+
        with m ComparisonExpr r i1 have "m = ValTuple exprs" by simp
        with \<open>m' = ListArg a\<close> show ?thesis by blast
      qed
    qed
  qed
qed

lemma rewritten_literal_at:
  assumes "rewritten pf st n n'" "node_at n path = Some (SQLVal t v)" "node_at n' path = Some m'"
  shows "rewritten pf st (SQLVal t v) m'"
  using rewritten_at [OF assms] by auto

lemma rewritten_comparison_at:
  assumes "rewritten pf st n n'" "node_at n path = Some (ComparisonExpr operator left right)"
    "node_at n' path = Some m'"
  shows "rewritten pf st (ComparisonExpr operator left right) m'"
  using rewritten_at [OF assms] by auto

lemma tuple_values_None:
  "tuple_values pf exprs acc = None \<longleftrightarrow> (\<exists>e \<in> set exprs. sqlToBindvar pf e = None)"
  by (induction exprs arbitrary: acc) (auto split: option.splits)

text \<open>Everything the later sections use about a run, in one place.\<close>

lemma run_facts:
  assumes r: "Normalize_run pf stmt bindVars0 prefix = Some (Inr (err, nodes, st'))"
  obtains reserved0 stmt' where
    "GetBindvars stmt = Some (Inr ([stmt], reserved0))"
    "fset reserved0 = scanned stmt"
    "err = None" "nodes = [stmt']"
    "extends prefix \<lparr>reserved = reserved0, counter = 1, vals = Map.empty, bindVars = bindVars0\<rparr> st'"
    "consistent st'"
    "rewritten pf st' stmt stmt'"
    "distinct (list_names stmt stmt')"
    "\<forall>x \<in> set (list_names stmt stmt'). x |\<in>| reserved st' \<and> x |\<notin>| reserved0 \<and> x \<notin> ran (vals st')"
    "\<forall>x. x |\<in>| reserved st' \<and> x |\<notin>| reserved0 \<longrightarrow>
       x \<in> ran (vals st') \<or> x \<in> set (list_names stmt stmt')"
proof -
  from r obtain reserved0 stmt' where
    g: "GetBindvars stmt = Some (Inr ([stmt], reserved0))" "fset reserved0 = scanned stmt"
      "err = None" "nodes = [stmt']" and
    w: "walks (Normalize_visit pf prefix) [stmt]
       \<lparr>reserved = reserved0, counter = 1, vals = Map.empty, bindVars = bindVars0\<rparr> [stmt'] st'"
    by (rule run_inverse)
  note c0 = consistent_initial [of reserved0 bindVars0]
  from walks_extends [OF w] walks_consistent [OF w c0] walks_rewritten [OF w c0]
    walks_list_names [OF w c0] walks_new_names [OF w c0] g that
  show thesis by simp
qed

section \<open>Running the model on concrete statements\<close>

lemma Walk_Cons:
  "Walk visit (node # rest) s =
          (case visit node s of
             Inl f \<Rightarrow> Some (Inl f)
           | Inr (kontinue, err, node', s1) \<Rightarrow>
               (case err of
                  Some e \<Rightarrow> Some (Inr (Some e, node' # rest, s1))
                | None \<Rightarrow>
                    Option.bind
                      (if kontinue then Walk visit (children node') s1
                       else Some (Inr (None, children node', s1)))
                      (\<lambda>sub. case sub of
                         Inl f \<Rightarrow> Some (Inl f)
                       | Inr (err2, cs, s2) \<Rightarrow>
                           (case err2 of
                              Some e \<Rightarrow> Some (Inr (Some e, with_children node' cs # rest, s2))
                            | None \<Rightarrow>
                                Option.bind (Walk visit rest s2)
                                  (\<lambda>tl. case tl of
                                     Inl f \<Rightarrow> Some (Inl f)
                                   | Inr (err3, rest', s3) \<Rightarrow>
                                       Some (Inr (err3, with_children node' cs # rest', s3)))))))"
  by (subst Walk.simps) simp

lemmas run_simps = Normalize_def Normalize_run_def GetBindvars_def Walk_Cons Walk_Nil
  GetBindvars_visit_def Normalize_visit_def sqlToBindvar_def NewValue_def ValueBindVariable_def
  dedup_key_def InStr_def NotInStr_def

lemma itoa_1: "itoa 1 = ''1''" and itoa_2: "itoa 2 = ''2''" and itoa_3: "itoa 3 = ''3''"
  by (simp_all add: itoa_def digits.simps digit_char_def)

lemma newName_v1: "newName ''v'' 1 {||} = (''v1'', 2, {|''v1''|})"
  by (subst newName.simps) (simp add: itoa_1 Let_def)

lemma newName_v2: "newName ''v'' 2 {|''v1''|} = (''v2'', 3, {|''v2'', ''v1''|})"
  by (subst newName.simps) (simp add: itoa_2 Let_def)

lemma newName_v2_from_1: "newName ''v'' 1 {|''v1''|} = (''v2'', 3, {|''v2'', ''v1''|})"
  by (subst newName.simps, simp add: itoa_1 Let_def, subst newName.simps, simp add: itoa_2 Let_def)

lemma ParseInt_1: "ParseInt ''1'' = Some 1" and ParseInt_2: "ParseInt ''2'' = Some 2"
  and ParseInt_5: "ParseInt ''5'' = Some 5"
  by (simp_all add: ParseInt_def undigits_def digit_val_def is_digit_def)

lemma ParseInt_3: "ParseInt ''3'' = Some 3"
  by (simp add: ParseInt_def undigits_def digit_val_def is_digit_def)

text \<open>
  The list rewrite of the spec's examples: \<^verbatim>\<open>a IN (1, 2, 3)\<close> with the prefix \<^verbatim>\<open>v\<close>
  becomes \<^verbatim>\<open>a IN ::v1\<close>, and \<^verbatim>\<open>v1\<close> is bound to the list of the three integers. The
  elements of the replaced tuple are not visited.
\<close>

lemma list_rewrite_example:
  "Normalize (\<lambda>s. None)
     (ComparisonExpr ''in'' (Other ''a'' [])
        (ValTuple [SQLVal IntVal ''1'', SQLVal IntVal ''2'', SQLVal IntVal ''3'']))
     Map.empty ''v''
   = Some (Inr ([ComparisonExpr ''in'' (Other ''a'' []) (ListArg ''::v1'')],
       [''v1'' \<mapsto> \<lparr>Type = Type_TUPLE, Value = [],
          Values = [\<lparr>Type = Int64, Value = ''1''\<rparr>, \<lparr>Type = Int64, Value = ''2''\<rparr>,
                    \<lparr>Type = Int64, Value = ''3''\<rparr>]\<rparr>]))"
  by (simp add: run_simps ParseInt_1 ParseInt_2 ParseInt_3 newName_v1)

section \<open>Tuples that do not convert as a whole\<close>

text \<open>
  C1, as the spec states it, fails: in \<^verbatim>\<open>x IN (1, 2, 0b1)\<close> the bit literal does not
  convert, so the comparison keeps its tuple, but the walk goes on into the tuple and
  rewrites the two integers one by one.
\<close>

theorem unconvertible_tuple_counterexample:
  "Normalize (\<lambda>s. None) (ComparisonExpr ''in'' (Other ''x'' [])
       (ValTuple [SQLVal IntVal ''1'', SQLVal IntVal ''2'', SQLVal (OtherVal 0) ''0b1'']))
     Map.empty ''v''
   = Some (Inr ([ComparisonExpr ''in'' (Other ''x'' [])
       (ValTuple [SQLVal ValArg '':v1'', SQLVal ValArg '':v2'', SQLVal (OtherVal 0) ''0b1''])],
       [''v1'' \<mapsto> \<lparr>Type = Int64, Value = ''1'', Values = []\<rparr>,
        ''v2'' \<mapsto> \<lparr>Type = Int64, Value = ''2'', Values = []\<rparr>]))"
  by (simp add: run_simps ParseInt_1 ParseInt_2 newName_v1 newName_v2)

text \<open>
  C1, amended. When an element of the tuple on the right of a comparison (IN and NOT IN
  among them) fails the conversion, the comparison is not given a list placeholder: at
  its place in the normalized statement stands a comparison with the same operator and a
  tuple of the same length. The elements are rewritten one by one: a literal element that
  does not convert is unchanged, and a literal element that converts is the scalar
  placeholder of the name held for its key, a reserved name that the bind-variable map
  binds.
\<close>

theorem unconvertible_tuple_elementwise:
  assumes run: "Normalize_run pf stmt bindVars0 prefix = Some (Inr (err, [stmt'], st'))"
    and at: "node_at stmt path = Some (ComparisonExpr operator left (ValTuple exprs))"
    and at': "node_at stmt' path = Some n'"
    and bad: "\<exists>e \<in> set exprs. sqlToBindvar pf e = None"
  shows "\<exists>left' exprs'. n' = ComparisonExpr operator left' (ValTuple exprs')
     \<and> length exprs' = length exprs
     \<and> (\<forall>i < length exprs. \<forall>t v. exprs ! i = SQLVal t v \<longrightarrow>
          (case sqlToBindvar pf (SQLVal t v) of
             None \<Rightarrow> exprs' ! i = SQLVal t v
           | Some b \<Rightarrow>
               (\<exists>nm. exprs' ! i = SQLVal ValArg (CHR '':'' # nm)
                  \<and> vals st' (dedup_key b v) = Some nm
                  \<and> nm |\<in>| reserved st' \<and> bindVars st' nm \<noteq> None)))"
proof -
  from run obtain s where rw: "rewritten pf st' stmt s" and c: "consistent st'" and "[stmt'] = [s]"
    by (rule run_facts)
  then have rw: "rewritten pf st' stmt stmt'" by simp
  from rw at at' have cmp: "rewritten pf st' (ComparisonExpr operator left (ValTuple exprs)) n'"
    by (rule rewritten_comparison_at)
  from bad have none: "list_rewrite pf operator (ValTuple exprs) = None"
    by (simp add: list_rewrite_def tuple_values_None)
  from cmp none obtain left' exprs' where n': "n' = ComparisonExpr operator left' (ValTuple exprs')"
    and all: "list_all2 (rewritten pf st') exprs exprs'"
    by (auto split: SQLNode.splits)
  have "\<forall>i < length exprs. \<forall>t v. exprs ! i = SQLVal t v \<longrightarrow>
          (case sqlToBindvar pf (SQLVal t v) of
             None \<Rightarrow> exprs' ! i = SQLVal t v
           | Some b \<Rightarrow>
               (\<exists>nm. exprs' ! i = SQLVal ValArg (CHR '':'' # nm)
                  \<and> vals st' (dedup_key b v) = Some nm
                  \<and> nm |\<in>| reserved st' \<and> bindVars st' nm \<noteq> None))"
  proof (intro allI impI)
    fix i t v assume i: "i < length exprs" and e: "exprs ! i = SQLVal t v"
    from all i have r: "rewritten pf st' (exprs ! i) (exprs' ! i)" by (rule list_all2_nthD)
    show "case sqlToBindvar pf (SQLVal t v) of
             None \<Rightarrow> exprs' ! i = SQLVal t v
           | Some b \<Rightarrow>
               (\<exists>nm. exprs' ! i = SQLVal ValArg (CHR '':'' # nm)
                  \<and> vals st' (dedup_key b v) = Some nm
                  \<and> nm |\<in>| reserved st' \<and> bindVars st' nm \<noteq> None)"
    proof (cases "sqlToBindvar pf (SQLVal t v)")
      case None
      with r e show ?thesis by simp
    next
      case (Some b)
      with r e obtain nm where nm: "vals st' (dedup_key b v) = Some nm"
        "exprs' ! i = SQLVal ValArg (CHR '':'' # nm)"
        by (auto split: option.splits)
      from consistentD [OF c nm(1)] nm Some show ?thesis by auto
    qed
  qed
  with n' list_all2_lengthD [OF all] show ?thesis by simp
qed

theorem unconvertible_tuple_elementwise_witness:
  "Normalize_run (\<lambda>s. None) (ComparisonExpr ''in'' (Other ''x'' [])
       (ValTuple [SQLVal IntVal ''1'', SQLVal IntVal ''2'', SQLVal (OtherVal 0) ''0b1'']))
     Map.empty ''v''
   = Some (Inr (None, [ComparisonExpr ''in'' (Other ''x'' [])
       (ValTuple [SQLVal ValArg '':v1'', SQLVal ValArg '':v2'', SQLVal (OtherVal 0) ''0b1''])],
       \<lparr>reserved = {|''v2'', ''v1''|}, counter = 3,
        vals = [''1'' \<mapsto> ''v1'', ''2'' \<mapsto> ''v2''],
        bindVars = [''v1'' \<mapsto> \<lparr>Type = Int64, Value = ''1'', Values = []\<rparr>,
                    ''v2'' \<mapsto> \<lparr>Type = Int64, Value = ''2'', Values = []\<rparr>]\<rparr>))
   \<and> (\<exists>e \<in> set [SQLVal IntVal ''1'', SQLVal IntVal ''2'', SQLVal (OtherVal 0) ''0b1''].
         sqlToBindvar (\<lambda>s. None) e = None)
   \<and> (\<exists>left' exprs'. ComparisonExpr ''in'' (Other ''x'' [])
           (ValTuple [SQLVal ValArg '':v1'', SQLVal ValArg '':v2'', SQLVal (OtherVal 0) ''0b1''])
         = ComparisonExpr ''in'' left' (ValTuple exprs')
       \<and> length exprs' = 3 \<and> exprs' ! 0 = SQLVal ValArg '':v1'')"
proof -
  let ?stmt = "ComparisonExpr ''in'' (Other ''x'' [])
       (ValTuple [SQLVal IntVal ''1'', SQLVal IntVal ''2'', SQLVal (OtherVal 0) ''0b1''])"
  let ?stmt' = "ComparisonExpr ''in'' (Other ''x'' [])
       (ValTuple [SQLVal ValArg '':v1'', SQLVal ValArg '':v2'', SQLVal (OtherVal 0) ''0b1''])"
  let ?st = "\<lparr>reserved = {|''v2'', ''v1''|}, counter = 3,
        vals = [''1'' \<mapsto> ''v1'', ''2'' \<mapsto> ''v2''],
        bindVars = [''v1'' \<mapsto> \<lparr>Type = Int64, Value = ''1'', Values = []\<rparr>,
                    ''v2'' \<mapsto> \<lparr>Type = Int64, Value = ''2'', Values = []\<rparr>]\<rparr>"
  have run: "Normalize_run (\<lambda>s. None) ?stmt Map.empty ''v'' = Some (Inr (None, [?stmt'], ?st))"
    by (simp add: run_simps ParseInt_1 ParseInt_2 newName_v1 newName_v2)
  have at: "node_at ?stmt [] = Some (ComparisonExpr ''in'' (Other ''x'' [])
       (ValTuple [SQLVal IntVal ''1'', SQLVal IntVal ''2'', SQLVal (OtherVal 0) ''0b1'']))"
    and at': "node_at ?stmt' [] = Some ?stmt'" by simp_all
  have bad: "\<exists>e \<in> set [SQLVal IntVal ''1'', SQLVal IntVal ''2'', SQLVal (OtherVal 0) ''0b1''].
         sqlToBindvar (\<lambda>s. None) e = None"
    by (simp add: sqlToBindvar_def)
  from unconvertible_tuple_elementwise [OF run at at' bad] obtain left' exprs' where
    e: "?stmt' = ComparisonExpr ''in'' left' (ValTuple exprs')" "length exprs' = 3" by auto
  then have "exprs' ! 0 = SQLVal ValArg '':v1''" by auto
  with e run bad show ?thesis by blast
qed

section \<open>Literals of different kinds with the same text\<close>

lemma sqlToBindvar_key:
  "sqlToBindvar pf (SQLVal t v) = Some b \<Longrightarrow>
   dedup_key b v = (if t = StrVal then CHR 0x27 # v else v)"
  by (cases t)
     (auto simp: sqlToBindvar_def NewValue_def ValueBindVariable_def dedup_key_def
           split: option.splits)

lemma sqlToBindvar_StrVal:
  "sqlToBindvar pf (SQLVal StrVal v) = Some \<lparr>Type = VarBinary, Value = v, Values = []\<rparr>"
  by (simp add: sqlToBindvar_def NewValue_def ValueBindVariable_def)

lemma run_literal:
  assumes run: "Normalize_run pf stmt bindVars0 prefix = Some (Inr (err, [stmt'], st'))"
    and at: "node_at stmt path = Some (SQLVal t v)"
    and at': "node_at stmt' path = Some n'"
    and b: "sqlToBindvar pf (SQLVal t v) = Some b"
  shows "\<exists>nm. n' = SQLVal ValArg (CHR '':'' # nm)
     \<and> vals st' (dedup_key b v) = Some nm
     \<and> nm |\<in>| reserved st'
     \<and> nm \<notin> bindvar_names stmt
     \<and> (\<exists>b'. bindVars st' nm = Some b' \<and> Values b' = [] \<and> dedup_key b' (Value b') = dedup_key b v)"
proof -
  from run obtain reserved0 s where g: "fset reserved0 = scanned stmt"
    and e: "extends prefix \<lparr>reserved = reserved0, counter = 1, vals = Map.empty, bindVars = bindVars0\<rparr> st'"
    and rw: "rewritten pf st' stmt s" and c: "consistent st'" and "[stmt'] = [s]"
    by (rule run_facts)
  then have rw: "rewritten pf st' stmt stmt'" by simp
  from rw at at' have "rewritten pf st' (SQLVal t v) n'" by (rule rewritten_literal_at)
  with b obtain nm where nm: "vals st' (dedup_key b v) = Some nm" "n' = SQLVal ValArg (CHR '':'' # nm)"
    by (auto split: option.splits)
  from extends_fresh_vals [OF e nm(1)] have "nm |\<notin>| reserved0" by simp
  with g bindvar_names_scanned [of stmt] have "nm \<notin> bindvar_names stmt" by auto
  with consistentD [OF c nm(1)] nm show ?thesis by blast
qed

lemma run_and_1_1:
  "Normalize_run (\<lambda>s. if s = ''1'' then Some () else None)
     (Other ''and'' [SQLVal IntVal ''1'', SQLVal FloatVal ''1'']) Map.empty ''v''
   = Some (Inr (None, [Other ''and'' [SQLVal ValArg '':v1'', SQLVal ValArg '':v1'']],
       \<lparr>reserved = {|''v1''|}, counter = 2, vals = [''1'' \<mapsto> ''v1''],
        bindVars = [''v1'' \<mapsto> \<lparr>Type = Int64, Value = ''1'', Values = []\<rparr>]\<rparr>))"
  by (simp add: run_simps ParseInt_1 newName_v1)

lemma ParseInt_123: "ParseInt ''123'' = Some 123"
  by (simp add: ParseInt_def undigits_def digit_val_def is_digit_def)

lemma run_and_123:
  "Normalize_run (\<lambda>s. None)
     (Other ''and'' [SQLVal StrVal ''123'', SQLVal IntVal ''123'']) Map.empty ''v''
   = Some (Inr (None, [Other ''and'' [SQLVal ValArg '':v1'', SQLVal ValArg '':v2'']],
       \<lparr>reserved = {|''v2'', ''v1''|}, counter = 3,
        vals = [[CHR 0x27, CHR ''1'', CHR ''2'', CHR ''3''] \<mapsto> ''v1'', ''123'' \<mapsto> ''v2''],
        bindVars = [''v1'' \<mapsto> \<lparr>Type = VarBinary, Value = ''123'', Values = []\<rparr>,
                    ''v2'' \<mapsto> \<lparr>Type = Int64, Value = ''123'', Values = []\<rparr>]\<rparr>))"
  by (simp add: run_simps ParseInt_123 newName_v1 newName_v2)

text \<open>
  C2, as the spec states it, fails for the pair of an integer and a float literal: only
  the key of a string literal is tagged. With a float parser that accepts the text
  \<^verbatim>\<open>1\<close>, as Go's does, the integer literal \<^verbatim>\<open>1\<close> and the float literal \<^verbatim>\<open>1\<close> share
  the key \<^verbatim>\<open>1\<close>, the name \<^verbatim>\<open>v1\<close> and the one entry, which has the integer kind.
\<close>

theorem kind_disambiguation_counterexample:
  "Normalize (\<lambda>s. if s = ''1'' then Some () else None)
     (Other ''and'' [SQLVal IntVal ''1'', SQLVal FloatVal ''1'']) Map.empty ''v''
   = Some (Inr ([Other ''and'' [SQLVal ValArg '':v1'', SQLVal ValArg '':v1'']],
       [''v1'' \<mapsto> \<lparr>Type = Int64, Value = ''1'', Values = []\<rparr>]))"
  by (simp add: Normalize_def run_and_1_1)

text \<open>
  C2, amended. For a string literal and an integer or float literal with the same raw
  text that both convert, each at a place that the normalized statement still has,
  \<^verbatim>\<open>Normalize\<close> uses two different keys (the string's key is the text behind a quote, the
  number's key is the text), gives the two literals two different names, and binds both
  names: two entries of the bind-variable map.
\<close>

theorem string_and_number_distinct:
  assumes run: "Normalize_run pf stmt bindVars0 prefix = Some (Inr (err, [stmt'], st'))"
    and at1: "node_at stmt path1 = Some (SQLVal StrVal v)"
    and at1': "node_at stmt' path1 = Some n1"
    and at2: "node_at stmt path2 = Some (SQLVal t v)"
    and at2': "node_at stmt' path2 = Some n2"
    and t: "t = IntVal \<or> t = FloatVal"
    and b: "sqlToBindvar pf (SQLVal t v) = Some b"
  shows "\<exists>nm1 nm2. n1 = SQLVal ValArg (CHR '':'' # nm1) \<and> n2 = SQLVal ValArg (CHR '':'' # nm2)
     \<and> nm1 \<noteq> nm2
     \<and> vals st' (CHR 0x27 # v) = Some nm1 \<and> vals st' v = Some nm2
     \<and> bindVars st' nm1 \<noteq> None \<and> bindVars st' nm2 \<noteq> None"
proof -
  from run obtain s where c: "consistent st'" by (rule run_facts)
  from run_literal [OF run at1 at1' sqlToBindvar_StrVal] obtain nm1 where
    1: "n1 = SQLVal ValArg (CHR '':'' # nm1)" "vals st' (CHR 0x27 # v) = Some nm1"
       "bindVars st' nm1 \<noteq> None"
    by (auto simp: dedup_key_def)
  from run_literal [OF run at2 at2' b] sqlToBindvar_key [OF b] t obtain nm2 where
    2: "n2 = SQLVal ValArg (CHR '':'' # nm2)" "vals st' v = Some nm2"
       "bindVars st' nm2 \<noteq> None"
    by auto
  have "nm1 \<noteq> nm2"
  proof
    assume "nm1 = nm2"
    with 1(2) 2(2) consistent_inj [OF c, of "CHR 0x27 # v" nm1 v] show False by simp
  qed
  with 1 2 show ?thesis by blast
qed

theorem string_and_number_distinct_witness:
  "Normalize_run (\<lambda>s. None)
     (Other ''and'' [SQLVal StrVal ''123'', SQLVal IntVal ''123'']) Map.empty ''v''
   = Some (Inr (None, [Other ''and'' [SQLVal ValArg '':v1'', SQLVal ValArg '':v2'']],
       \<lparr>reserved = {|''v2'', ''v1''|}, counter = 3,
        vals = [[CHR 0x27, CHR ''1'', CHR ''2'', CHR ''3''] \<mapsto> ''v1'', ''123'' \<mapsto> ''v2''],
        bindVars = [''v1'' \<mapsto> \<lparr>Type = VarBinary, Value = ''123'', Values = []\<rparr>,
                    ''v2'' \<mapsto> \<lparr>Type = Int64, Value = ''123'', Values = []\<rparr>]\<rparr>))
   \<and> sqlToBindvar (\<lambda>s. None) (SQLVal IntVal ''123'')
       = Some \<lparr>Type = Int64, Value = ''123'', Values = []\<rparr>
   \<and> (\<exists>nm1 nm2. SQLVal ValArg '':v1'' = SQLVal ValArg (CHR '':'' # nm1)
         \<and> SQLVal ValArg '':v2'' = SQLVal ValArg (CHR '':'' # nm2) \<and> nm1 \<noteq> nm2)"
proof -
  let ?stmt = "Other ''and'' [SQLVal StrVal ''123'', SQLVal IntVal ''123'']"
  let ?stmt' = "Other ''and'' [SQLVal ValArg '':v1'', SQLVal ValArg '':v2'']"
  have at1: "node_at ?stmt [0] = Some (SQLVal StrVal ''123'')"
    and at1': "node_at ?stmt' [0] = Some (SQLVal ValArg '':v1'')"
    and at2: "node_at ?stmt [1] = Some (SQLVal IntVal ''123'')"
    and at2': "node_at ?stmt' [1] = Some (SQLVal ValArg '':v2'')"
    by simp_all
  have t: "IntVal = IntVal \<or> IntVal = FloatVal" by simp
  have b: "sqlToBindvar (\<lambda>s. None) (SQLVal IntVal ''123'')
       = Some \<lparr>Type = Int64, Value = ''123'', Values = []\<rparr>"
    by (simp add: sqlToBindvar_def NewValue_def ValueBindVariable_def ParseInt_123)
  from string_and_number_distinct [OF run_and_123 at1 at1' at2 at2' t b]
  have "\<exists>nm1 nm2. SQLVal ValArg '':v1'' = SQLVal ValArg (CHR '':'' # nm1)
         \<and> SQLVal ValArg '':v2'' = SQLVal ValArg (CHR '':'' # nm2) \<and> nm1 \<noteq> nm2"
    by blast
  with run_and_123 b show ?thesis by blast
qed

section \<open>The same literal twice\<close>

lemma run_and_5_5:
  "Normalize_run (\<lambda>s. None)
     (Other ''and'' [SQLVal IntVal ''5'', SQLVal IntVal ''5'']) Map.empty ''v''
   = Some (Inr (None, [Other ''and'' [SQLVal ValArg '':v1'', SQLVal ValArg '':v1'']],
       \<lparr>reserved = {|''v1''|}, counter = 2, vals = [''5'' \<mapsto> ''v1''],
        bindVars = [''v1'' \<mapsto> \<lparr>Type = Int64, Value = ''5'', Values = []\<rparr>]\<rparr>))"
  by (simp add: run_simps ParseInt_5 newName_v1)

text \<open>
  C3, as the spec states it, fails for the occurrences inside a tuple that converts as a
  whole: in \<^verbatim>\<open>x IN (5, 5)\<close> the literal \<^verbatim>\<open>5\<close> occurs twice, no occurrence becomes a
  scalar placeholder and no scalar entry is inserted; the tuple becomes one list
  placeholder with one list-valued entry.
\<close>

theorem scalar_dedup_counterexample:
  "Normalize (\<lambda>s. None)
     (ComparisonExpr ''in'' (Other ''x'' []) (ValTuple [SQLVal IntVal ''5'', SQLVal IntVal ''5'']))
     Map.empty ''v''
   = Some (Inr ([ComparisonExpr ''in'' (Other ''x'' []) (ListArg ''::v1'')],
       [''v1'' \<mapsto> \<lparr>Type = Type_TUPLE, Value = [],
          Values = [\<lparr>Type = Int64, Value = ''5''\<rparr>, \<lparr>Type = Int64, Value = ''5''\<rparr>]\<rparr>]))"
  by (simp add: run_simps ParseInt_5 newName_v1)

text \<open>
  C3, amended. For a scalar literal that converts and occurs at two (or more) places that
  the normalized statement still has, that is, places not inside a tuple replaced by a
  list placeholder, one call rewrites every such occurrence to the scalar placeholder of
  one and the same name. The name is new to the statement, it is the one name held for
  the literal's key and stands for no other key and no list, and the bind-variable map
  has one entry under it, a scalar value with that key.
\<close>

theorem same_literal_same_name:
  assumes run: "Normalize_run pf stmt bindVars0 prefix = Some (Inr (err, [stmt'], st'))"
    and at1: "node_at stmt path1 = Some (SQLVal t v)"
    and at1': "node_at stmt' path1 = Some n1"
    and at2: "node_at stmt path2 = Some (SQLVal t v)"
    and at2': "node_at stmt' path2 = Some n2"
    and b: "sqlToBindvar pf (SQLVal t v) = Some b"
  shows "\<exists>nm. n1 = SQLVal ValArg (CHR '':'' # nm) \<and> n2 = SQLVal ValArg (CHR '':'' # nm)
     \<and> nm \<notin> bindvar_names stmt
     \<and> vals st' (dedup_key b v) = Some nm
     \<and> (\<forall>key. vals st' key = Some nm \<longrightarrow> key = dedup_key b v)
     \<and> nm \<notin> set (list_names stmt stmt')
     \<and> (\<exists>b'. bindVars st' nm = Some b' \<and> Values b' = [] \<and> dedup_key b' (Value b') = dedup_key b v)"
proof -
  from run obtain reserved0 s where c: "consistent st'"
    and ln: "\<forall>x \<in> set (list_names stmt s). x |\<in>| reserved st' \<and> x |\<notin>| reserved0 \<and> x \<notin> ran (vals st')"
    and "[stmt'] = [s]"
    by (rule run_facts)
  then have ln: "\<forall>x \<in> set (list_names stmt stmt'). x \<notin> ran (vals st')" by simp
  from run_literal [OF run at1 at1' b] obtain nm where
    1: "n1 = SQLVal ValArg (CHR '':'' # nm)" "vals st' (dedup_key b v) = Some nm"
       "nm \<notin> bindvar_names stmt"
       "\<exists>b'. bindVars st' nm = Some b' \<and> Values b' = [] \<and> dedup_key b' (Value b') = dedup_key b v"
    by blast
  from run_literal [OF run at2 at2' b] 1(2) have 2: "n2 = SQLVal ValArg (CHR '':'' # nm)"
    by auto
  have 3: "\<forall>key. vals st' key = Some nm \<longrightarrow> key = dedup_key b v"
    using consistent_inj [OF c _ 1(2)] by blast
  from 1(2) have "nm \<in> ran (vals st')" by (auto simp: ran_def)
  with ln have 4: "nm \<notin> set (list_names stmt stmt')" by blast
  from 1 2 3 4 show ?thesis by blast
qed

theorem same_literal_same_name_witness:
  "Normalize_run (\<lambda>s. None)
     (Other ''and'' [SQLVal IntVal ''5'', SQLVal IntVal ''5'']) Map.empty ''v''
   = Some (Inr (None, [Other ''and'' [SQLVal ValArg '':v1'', SQLVal ValArg '':v1'']],
       \<lparr>reserved = {|''v1''|}, counter = 2, vals = [''5'' \<mapsto> ''v1''],
        bindVars = [''v1'' \<mapsto> \<lparr>Type = Int64, Value = ''5'', Values = []\<rparr>]\<rparr>))
   \<and> sqlToBindvar (\<lambda>s. None) (SQLVal IntVal ''5'') = Some \<lparr>Type = Int64, Value = ''5'', Values = []\<rparr>
   \<and> (\<exists>nm. SQLVal ValArg '':v1'' = SQLVal ValArg (CHR '':'' # nm)
         \<and> nm \<notin> bindvar_names (Other ''and'' [SQLVal IntVal ''5'', SQLVal IntVal ''5'']))"
proof -
  let ?stmt = "Other ''and'' [SQLVal IntVal ''5'', SQLVal IntVal ''5'']"
  let ?stmt' = "Other ''and'' [SQLVal ValArg '':v1'', SQLVal ValArg '':v1'']"
  have at1: "node_at ?stmt [0] = Some (SQLVal IntVal ''5'')"
    and at1': "node_at ?stmt' [0] = Some (SQLVal ValArg '':v1'')"
    and at2: "node_at ?stmt [1] = Some (SQLVal IntVal ''5'')"
    and at2': "node_at ?stmt' [1] = Some (SQLVal ValArg '':v1'')"
    by simp_all
  have b: "sqlToBindvar (\<lambda>s. None) (SQLVal IntVal ''5'')
       = Some \<lparr>Type = Int64, Value = ''5'', Values = []\<rparr>"
    by (simp add: sqlToBindvar_def NewValue_def ValueBindVariable_def ParseInt_5)
  from same_literal_same_name [OF run_and_5_5 at1 at1' at2 at2' b]
  have "\<exists>nm. SQLVal ValArg '':v1'' = SQLVal ValArg (CHR '':'' # nm)
         \<and> nm \<notin> bindvar_names ?stmt"
    by blast
  with run_and_5_5 b show ?thesis by blast
qed

section \<open>Fresh names\<close>

lemma visit_first_taken:
  assumes k0: "1 \<le> k0" "prefix @ itoa k0 |\<notin>| reserved0"
      "\<forall>j. 1 \<le> j \<and> j < k0 \<longrightarrow> prefix @ itoa j |\<in>| reserved0"
    and v: "Normalize_visit pf prefix n s = Inr (True, None, n', s')"
    and f: "first_taken prefix reserved0 k0 s"
  shows "first_taken prefix reserved0 k0 s'"
proof -
  have alloc: "first_taken prefix reserved0 k0
      (s\<lparr>reserved := finsert (prefix @ itoa k) (reserved s), counter := k + 1\<rparr>)"
    if k: "counter s \<le> k" "prefix @ itoa k |\<notin>| reserved s"
      "\<forall>j. counter s \<le> j \<and> j < k \<longrightarrow> prefix @ itoa j |\<in>| reserved s" for k
  proof (cases "reserved s = reserved0 \<and> counter s = 1")
    case True
    have "\<not> k < k0" using k0(3) k(1,2) True by auto
    moreover have "\<not> k0 < k" using k(3) k0(1,2) True by auto
    ultimately have "k = k0" by simp
    then show ?thesis by (simp add: first_taken_def)
  next
    case False
    with f have "prefix @ itoa k0 |\<in>| reserved s \<and> k0 < counter s"
      by (auto simp: first_taken_def)
    with k(1) show ?thesis by (simp add: first_taken_def)
  qed
  show ?thesis
  proof (cases rule: visit_cases [of pf prefix n s])
    case same
    with v f show ?thesis by simp
  next
    case (old t va bval nm)
    with v f show ?thesis by simp
  next
    case (new t va bval k)
    from alloc [OF new(4,5,6)] new(7) v show ?thesis by (simp add: first_taken_def)
  next
    case (list operator left right bvalues k)
    from alloc [OF list(3,4,5)] list(6) v show ?thesis by (simp add: first_taken_def)
  qed
qed

lemma walks_first_taken:
  assumes k0: "1 \<le> k0" "prefix @ itoa k0 |\<notin>| reserved0"
      "\<forall>j. 1 \<le> j \<and> j < k0 \<longrightarrow> prefix @ itoa j |\<in>| reserved0"
    and w: "walks (Normalize_visit pf prefix) ns s ns' s'"
    and f: "first_taken prefix reserved0 k0 s"
  shows "first_taken prefix reserved0 k0 s'"
  using w f
  by (rule walks_inv [where I = "first_taken prefix reserved0 k0"
        and visit = "Normalize_visit pf prefix", rotated])
     (rule visit_first_taken [OF k0])

text \<open>
  C4. The names that one call of \<^verbatim>\<open>Normalize\<close> assigns are the names it adds to the set
  that \<^verbatim>\<open>GetBindvars\<close> returned. Every placeholder name of the original statement, scalar
  or list, is in that set, so no assigned name is one of them; each assigned name is
  bound in the map, and the map changes at assigned names only. With \<open>k0\<close> the lowest
  positive integer whose name (the prefix and the decimal number) is not in the set,
  which is the name the first call of \<^verbatim>\<open>newName\<close> returns: every assigned name has a
  number from \<open>k0\<close> on, and if any name is assigned, the name with the number \<open>k0\<close> is.
\<close>

theorem assigned_names_fresh:
  assumes scan: "GetBindvars stmt = Some (Inr (nodes0, reserved0))"
    and run: "Normalize_run pf stmt bindVars0 prefix = Some (Inr (err, nodes, st'))"
  shows "bindvar_names stmt \<subseteq> fset reserved0
     \<and> reserved0 |\<subseteq>| reserved st'
     \<and> (\<forall>nm. nm |\<in>| reserved st' \<and> nm |\<notin>| reserved0 \<longrightarrow>
          nm \<notin> bindvar_names stmt \<and> bindVars st' nm \<noteq> None)
     \<and> (\<forall>nm. bindVars st' nm \<noteq> bindVars0 nm \<longrightarrow> nm |\<in>| reserved st' \<and> nm |\<notin>| reserved0)
     \<and> (\<exists>k0. 1 \<le> k0
          \<and> fst (newName prefix 1 reserved0) = prefix @ itoa k0
          \<and> prefix @ itoa k0 |\<notin>| reserved0
          \<and> (\<forall>j. 1 \<le> j \<and> j < k0 \<longrightarrow> prefix @ itoa j |\<in>| reserved0)
          \<and> (\<forall>nm. nm |\<in>| reserved st' \<and> nm |\<notin>| reserved0 \<longrightarrow>
                (\<exists>k. k0 \<le> k \<and> nm = prefix @ itoa k))
          \<and> (reserved st' \<noteq> reserved0 \<longrightarrow> prefix @ itoa k0 |\<in>| reserved st'))"
proof -
  let ?s0 = "\<lparr>reserved = reserved0, counter = 1, vals = Map.empty, bindVars = bindVars0\<rparr>"
  from run obtain r0 stmt' where g: "GetBindvars stmt = Some (Inr ([stmt], r0))"
    and sc: "fset r0 = scanned stmt" and nodes: "nodes = [stmt']"
    and w: "walks (Normalize_visit pf prefix) [stmt]
       \<lparr>reserved = r0, counter = 1, vals = Map.empty, bindVars = bindVars0\<rparr> [stmt'] st'"
    by (rule run_inverse)
  from g scan have r0: "r0 = reserved0" by simp
  from w r0 have w: "walks (Normalize_visit pf prefix) [stmt] ?s0 [stmt'] st'" by simp
  from sc r0 have sc: "fset reserved0 = scanned stmt" by simp
  from walks_extends [OF w] have e: "extends prefix ?s0 st'" .
  have 1: "bindvar_names stmt \<subseteq> fset reserved0"
    using sc bindvar_names_scanned [of stmt] by simp
  have 2: "reserved0 |\<subseteq>| reserved st'"
    using extends_reserved [OF e] by auto
  have 3: "\<forall>nm. nm |\<in>| reserved st' \<and> nm |\<notin>| reserved0 \<longrightarrow>
          nm \<notin> bindvar_names stmt \<and> bindVars st' nm \<noteq> None"
    using extends_new [OF e] 1 by auto
  have 4: "\<forall>nm. bindVars st' nm \<noteq> bindVars0 nm \<longrightarrow> nm |\<in>| reserved st' \<and> nm |\<notin>| reserved0"
    using extends_kept [OF e] extends_untouched [OF e] by fastforce
  from newName_first_free [of 1 prefix reserved0] obtain k0 where
    k0: "1 \<le> k0"
      "newName prefix 1 reserved0 = (prefix @ itoa k0, k0 + 1, finsert (prefix @ itoa k0) reserved0)"
      "prefix @ itoa k0 |\<notin>| reserved0"
      "\<forall>j. 1 \<le> j \<and> j < k0 \<longrightarrow> prefix @ itoa j |\<in>| reserved0"
    by blast
  have 5: "\<forall>nm. nm |\<in>| reserved st' \<and> nm |\<notin>| reserved0 \<longrightarrow> (\<exists>k. k0 \<le> k \<and> nm = prefix @ itoa k)"
  proof (intro allI impI)
    fix nm assume nm: "nm |\<in>| reserved st' \<and> nm |\<notin>| reserved0"
    with extends_new [OF e, of nm] obtain k where k: "1 \<le> k" "nm = prefix @ itoa k" by auto
    have "\<not> k < k0"
    proof
      assume "k < k0"
      with k k0(4) have "nm |\<in>| reserved0" by simp
      with nm show False by simp
    qed
    with k show "\<exists>k. k0 \<le> k \<and> nm = prefix @ itoa k" by (intro exI [of _ k]) simp
  qed
  have "first_taken prefix reserved0 k0 ?s0" by (simp add: first_taken_def)
  with walks_first_taken [OF k0(1,3,4) w] have "first_taken prefix reserved0 k0 st'" by simp
  then have 6: "reserved st' \<noteq> reserved0 \<longrightarrow> prefix @ itoa k0 |\<in>| reserved st'"
    by (auto simp: first_taken_def)
  from k0 5 6 have "\<exists>k0. 1 \<le> k0
          \<and> fst (newName prefix 1 reserved0) = prefix @ itoa k0
          \<and> prefix @ itoa k0 |\<notin>| reserved0
          \<and> (\<forall>j. 1 \<le> j \<and> j < k0 \<longrightarrow> prefix @ itoa j |\<in>| reserved0)
          \<and> (\<forall>nm. nm |\<in>| reserved st' \<and> nm |\<notin>| reserved0 \<longrightarrow>
                (\<exists>k. k0 \<le> k \<and> nm = prefix @ itoa k))
          \<and> (reserved st' \<noteq> reserved0 \<longrightarrow> prefix @ itoa k0 |\<in>| reserved st')"
    by (intro exI [of _ k0]) simp
  with 1 2 3 4 show ?thesis by blast
qed

lemma scan_v1_5:
  "GetBindvars (Other ''and'' [SQLVal ValArg '':v1'', SQLVal IntVal ''5''])
   = Some (Inr ([Other ''and'' [SQLVal ValArg '':v1'', SQLVal IntVal ''5'']], {|''v1''|}))"
  by (simp add: GetBindvars_def Walk_Cons Walk_Nil GetBindvars_visit_def)

lemma run_v1_5:
  "Normalize_run (\<lambda>s. None) (Other ''and'' [SQLVal ValArg '':v1'', SQLVal IntVal ''5''])
     Map.empty ''v''
   = Some (Inr (None, [Other ''and'' [SQLVal ValArg '':v1'', SQLVal ValArg '':v2'']],
       \<lparr>reserved = {|''v2'', ''v1''|}, counter = 3, vals = [''5'' \<mapsto> ''v2''],
        bindVars = [''v2'' \<mapsto> \<lparr>Type = Int64, Value = ''5'', Values = []\<rparr>]\<rparr>))"
  by (simp add: Normalize_run_def scan_v1_5 Walk_Cons Walk_Nil Normalize_visit_def
      sqlToBindvar_def NewValue_def ValueBindVariable_def dedup_key_def ParseInt_5
      newName_v2_from_1)

theorem assigned_names_fresh_witness:
  "GetBindvars (Other ''and'' [SQLVal ValArg '':v1'', SQLVal IntVal ''5''])
   = Some (Inr ([Other ''and'' [SQLVal ValArg '':v1'', SQLVal IntVal ''5'']], {|''v1''|}))
   \<and> Normalize_run (\<lambda>s. None) (Other ''and'' [SQLVal ValArg '':v1'', SQLVal IntVal ''5''])
       Map.empty ''v''
     = Some (Inr (None, [Other ''and'' [SQLVal ValArg '':v1'', SQLVal ValArg '':v2'']],
         \<lparr>reserved = {|''v2'', ''v1''|}, counter = 3, vals = [''5'' \<mapsto> ''v2''],
          bindVars = [''v2'' \<mapsto> \<lparr>Type = Int64, Value = ''5'', Values = []\<rparr>]\<rparr>))
   \<and> bindvar_names (Other ''and'' [SQLVal ValArg '':v1'', SQLVal IntVal ''5'']) \<subseteq> {''v1''}
   \<and> ''v2'' \<notin> bindvar_names (Other ''and'' [SQLVal ValArg '':v1'', SQLVal IntVal ''5''])
   \<and> fst (newName ''v'' 1 {|''v1''|}) = ''v2''"
proof -
  let ?stmt = "Other ''and'' [SQLVal ValArg '':v1'', SQLVal IntVal ''5'']"
  let ?st = "\<lparr>reserved = {|''v2'', ''v1''|}, counter = 3, vals = [''5'' \<mapsto> ''v2''],
          bindVars = [''v2'' \<mapsto> \<lparr>Type = Int64, Value = ''5'', Values = []\<rparr>]\<rparr>"
  note th = assigned_names_fresh [OF scan_v1_5 run_v1_5]
  from th have a: "bindvar_names ?stmt \<subseteq> fset {|''v1''|}" by (rule conjunct1)
  from th have b: "\<forall>nm. nm |\<in>| reserved ?st \<and> nm |\<notin>| {|''v1''|} \<longrightarrow>
          nm \<notin> bindvar_names ?stmt \<and> bindVars ?st nm \<noteq> None"
    by (rule conjunct1 [OF conjunct2 [OF conjunct2]])
  from a have a': "bindvar_names ?stmt \<subseteq> {''v1''}" by simp
  from b [rule_format, of "''v2''"] have b': "''v2'' \<notin> bindvar_names ?stmt" by simp
  have c: "fst (newName ''v'' 1 {|''v1''|}) = ''v2''" by (simp add: newName_v2_from_1)
  from scan_v1_5 run_v1_5 a' b' c show ?thesis by (intro conjI)
qed

section \<open>The caller's map\<close>

lemma run_v5_old:
  "Normalize_run (\<lambda>s. None) (SQLVal IntVal ''5'')
     [''v1'' \<mapsto> \<lparr>Type = VarBinary, Value = ''old'', Values = []\<rparr>] ''v''
   = Some (Inr (None, [SQLVal ValArg '':v1''],
       \<lparr>reserved = {|''v1''|}, counter = 2, vals = [''5'' \<mapsto> ''v1''],
        bindVars = [''v1'' \<mapsto> \<lparr>Type = Int64, Value = ''5'', Values = []\<rparr>]\<rparr>))"
  by (simp add: run_simps ParseInt_5 newName_v1)

text \<open>
  C5, as the spec states it, fails: the reserved names come from the statement, not from
  the caller's map. A map that already has the key \<^verbatim>\<open>v1\<close>, for a statement that does not
  refer to \<^verbatim>\<open>v1\<close>, has the value under \<^verbatim>\<open>v1\<close> overwritten.
\<close>

theorem bind_map_overwrite_counterexample:
  "Normalize (\<lambda>s. None) (SQLVal IntVal ''5'')
     [''v1'' \<mapsto> \<lparr>Type = VarBinary, Value = ''old'', Values = []\<rparr>] ''v''
   = Some (Inr ([SQLVal ValArg '':v1''],
       [''v1'' \<mapsto> \<lparr>Type = Int64, Value = ''5'', Values = []\<rparr>]))"
  by (simp add: Normalize_def run_v5_old)

text \<open>
  C5, amended. For every caller-supplied map, \<^verbatim>\<open>Normalize\<close> never removes an entry, and
  the map changes only at the keys the call inserts, which are the names added to the
  reserved set. Such a key is never a placeholder name of the statement, so an entry
  present at the start under a name the statement refers to is never overwritten (an
  entry under any other name of the form prefix and number can be). The inserted keys
  are all different: there is one for each value key in \<^verbatim>\<open>vals\<close>, different for different
  value keys, and one for each tuple replaced by a list placeholder, different for
  different tuples and different from the scalar ones; every inserted key is bound.
\<close>

theorem bind_map_insertion_only:
  assumes scan: "GetBindvars stmt = Some (Inr (nodes0, reserved0))"
    and run: "Normalize_run pf stmt bindVars0 prefix = Some (Inr (err, [stmt'], st'))"
  shows "Normalize pf stmt bindVars0 prefix = Some (Inr ([stmt'], bindVars st'))
     \<and> dom bindVars0 \<subseteq> dom (bindVars st')
     \<and> (\<forall>nm. bindVars st' nm \<noteq> bindVars0 nm \<longrightarrow> nm |\<in>| reserved st' \<and> nm |\<notin>| reserved0)
     \<and> (\<forall>nm \<in> bindvar_names stmt. bindVars st' nm = bindVars0 nm)
     \<and> {nm. nm |\<in>| reserved st' \<and> nm |\<notin>| reserved0} = ran (vals st') \<union> set (list_names stmt stmt')
     \<and> inj_on (vals st') (dom (vals st'))
     \<and> distinct (list_names stmt stmt')
     \<and> ran (vals st') \<inter> set (list_names stmt stmt') = {}
     \<and> (\<forall>nm. nm |\<in>| reserved st' \<and> nm |\<notin>| reserved0 \<longrightarrow> bindVars st' nm \<noteq> None)"
proof -
  let ?s0 = "\<lparr>reserved = reserved0, counter = 1, vals = Map.empty, bindVars = bindVars0\<rparr>"
  from run obtain r0 s where g: "GetBindvars stmt = Some (Inr ([stmt], r0))"
    and sc: "fset r0 = scanned stmt"
    and e: "extends prefix \<lparr>reserved = r0, counter = 1, vals = Map.empty, bindVars = bindVars0\<rparr> st'"
    and c: "consistent st'"
    and s: "[stmt'] = [s]"
    and d: "distinct (list_names stmt s)"
    and ln: "\<forall>x \<in> set (list_names stmt s). x |\<in>| reserved st' \<and> x |\<notin>| r0 \<and> x \<notin> ran (vals st')"
    and nw: "\<forall>x. x |\<in>| reserved st' \<and> x |\<notin>| r0 \<longrightarrow> x \<in> ran (vals st') \<or> x \<in> set (list_names stmt s)"
    by (rule run_facts)
  from g scan have r0: "r0 = reserved0" by simp
  from s have s': "s = stmt'" by simp
  note e = e [unfolded r0] and ln = ln [unfolded r0 s'] and nw = nw [unfolded r0 s']
    and d = d [unfolded s'] and sc = sc [unfolded r0]
  have 0: "Normalize pf stmt bindVars0 prefix = Some (Inr ([stmt'], bindVars st'))"
    by (simp add: Normalize_def run)
  have 2: "\<forall>nm. bindVars st' nm \<noteq> bindVars0 nm \<longrightarrow> nm |\<in>| reserved st' \<and> nm |\<notin>| reserved0"
    using extends_kept [OF e] extends_untouched [OF e] by fastforce
  have 8: "\<forall>nm. nm |\<in>| reserved st' \<and> nm |\<notin>| reserved0 \<longrightarrow> bindVars st' nm \<noteq> None"
    using extends_new [OF e] by auto
  have 1: "dom bindVars0 \<subseteq> dom (bindVars st')"
  proof
    fix nm assume "nm \<in> dom bindVars0"
    then have b: "bindVars0 nm \<noteq> None" by auto
    show "nm \<in> dom (bindVars st')"
    proof (cases "bindVars st' nm = bindVars0 nm")
      case True
      with b show ?thesis by auto
    next
      case False
      with 2 8 show ?thesis by blast
    qed
  qed
  have 3: "\<forall>nm \<in> bindvar_names stmt. bindVars st' nm = bindVars0 nm"
  proof
    fix nm assume "nm \<in> bindvar_names stmt"
    with sc bindvar_names_scanned [of stmt] have "nm |\<in>| reserved0" by auto
    with extends_kept [OF e, of nm] show "bindVars st' nm = bindVars0 nm" by simp
  qed
  have 4: "{nm. nm |\<in>| reserved st' \<and> nm |\<notin>| reserved0} = ran (vals st') \<union> set (list_names stmt stmt')"
  proof (intro equalityI subsetI)
    fix nm assume "nm \<in> {nm. nm |\<in>| reserved st' \<and> nm |\<notin>| reserved0}"
    with nw show "nm \<in> ran (vals st') \<union> set (list_names stmt stmt')" by blast
  next
    fix nm assume "nm \<in> ran (vals st') \<union> set (list_names stmt stmt')"
    then show "nm \<in> {nm. nm |\<in>| reserved st' \<and> nm |\<notin>| reserved0}"
    proof
      assume "nm \<in> ran (vals st')"
      then obtain key where "vals st' key = Some nm" by (auto simp: ran_def)
      from extends_fresh_vals [OF e this] show ?thesis by simp
    next
      assume "nm \<in> set (list_names stmt stmt')"
      with ln show ?thesis by blast
    qed
  qed
  have 5: "inj_on (vals st') (dom (vals st'))" using c by (simp add: consistent_def)
  have 7: "ran (vals st') \<inter> set (list_names stmt stmt') = {}" using ln by blast
  from 0 1 2 3 4 5 d 7 8 show ?thesis by (intro conjI)
qed

lemma scan_5: "GetBindvars (SQLVal IntVal ''5'') = Some (Inr ([SQLVal IntVal ''5''], {||}))"
  by (simp add: GetBindvars_def Walk_Cons Walk_Nil GetBindvars_visit_def)

lemma run_5_keep:
  "Normalize_run (\<lambda>s. None) (SQLVal IntVal ''5'')
     [''mine'' \<mapsto> \<lparr>Type = VarBinary, Value = ''old'', Values = []\<rparr>] ''v''
   = Some (Inr (None, [SQLVal ValArg '':v1''],
       \<lparr>reserved = {|''v1''|}, counter = 2, vals = [''5'' \<mapsto> ''v1''],
        bindVars = [''mine'' \<mapsto> \<lparr>Type = VarBinary, Value = ''old'', Values = []\<rparr>,
                    ''v1'' \<mapsto> \<lparr>Type = Int64, Value = ''5'', Values = []\<rparr>]\<rparr>))"
  by (simp add: run_simps ParseInt_5 newName_v1)

theorem bind_map_insertion_only_witness:
  "GetBindvars (SQLVal IntVal ''5'') = Some (Inr ([SQLVal IntVal ''5''], {||}))
   \<and> Normalize_run (\<lambda>s. None) (SQLVal IntVal ''5'')
       [''mine'' \<mapsto> \<lparr>Type = VarBinary, Value = ''old'', Values = []\<rparr>] ''v''
     = Some (Inr (None, [SQLVal ValArg '':v1''],
         \<lparr>reserved = {|''v1''|}, counter = 2, vals = [''5'' \<mapsto> ''v1''],
          bindVars = [''mine'' \<mapsto> \<lparr>Type = VarBinary, Value = ''old'', Values = []\<rparr>,
                      ''v1'' \<mapsto> \<lparr>Type = Int64, Value = ''5'', Values = []\<rparr>]\<rparr>))
   \<and> Normalize (\<lambda>s. None) (SQLVal IntVal ''5'')
       [''mine'' \<mapsto> \<lparr>Type = VarBinary, Value = ''old'', Values = []\<rparr>] ''v''
     = Some (Inr ([SQLVal ValArg '':v1''],
          [''mine'' \<mapsto> \<lparr>Type = VarBinary, Value = ''old'', Values = []\<rparr>,
           ''v1'' \<mapsto> \<lparr>Type = Int64, Value = ''5'', Values = []\<rparr>]))
   \<and> dom [''mine'' \<mapsto> \<lparr>Type = VarBinary, Value = ''old'', Values = []\<rparr>]
       \<subseteq> dom [''mine'' \<mapsto> \<lparr>Type = VarBinary, Value = ''old'', Values = []\<rparr>,
               ''v1'' \<mapsto> \<lparr>Type = Int64, Value = ''5'', Values = []\<rparr>]"
proof -
  let ?st = "\<lparr>reserved = {|''v1''|}, counter = 2, vals = [''5'' \<mapsto> ''v1''],
          bindVars = [''mine'' \<mapsto> \<lparr>Type = VarBinary, Value = ''old'', Values = []\<rparr>,
                      ''v1'' \<mapsto> \<lparr>Type = Int64, Value = ''5'', Values = []\<rparr>]\<rparr>"
  note th = bind_map_insertion_only [OF scan_5 run_5_keep]
  from th have "Normalize (\<lambda>s. None) (SQLVal IntVal ''5'')
       [''mine'' \<mapsto> \<lparr>Type = VarBinary, Value = ''old'', Values = []\<rparr>] ''v''
     = Some (Inr ([SQLVal ValArg '':v1''], bindVars ?st))"
    by (rule conjunct1)
  then have a: "Normalize (\<lambda>s. None) (SQLVal IntVal ''5'')
       [''mine'' \<mapsto> \<lparr>Type = VarBinary, Value = ''old'', Values = []\<rparr>] ''v''
     = Some (Inr ([SQLVal ValArg '':v1''],
          [''mine'' \<mapsto> \<lparr>Type = VarBinary, Value = ''old'', Values = []\<rparr>,
           ''v1'' \<mapsto> \<lparr>Type = Int64, Value = ''5'', Values = []\<rparr>]))"
    by simp
  from th have "dom [''mine'' \<mapsto> \<lparr>Type = VarBinary, Value = ''old'', Values = []\<rparr>]
       \<subseteq> dom (bindVars ?st)"
    by (rule conjunct1 [OF conjunct2])
  then have b: "dom [''mine'' \<mapsto> \<lparr>Type = VarBinary, Value = ''old'', Values = []\<rparr>]
       \<subseteq> dom [''mine'' \<mapsto> \<lparr>Type = VarBinary, Value = ''old'', Values = []\<rparr>,
               ''v1'' \<mapsto> \<lparr>Type = Int64, Value = ''5'', Values = []\<rparr>]"
    by simp
  from scan_5 run_5_keep a b show ?thesis by (intro conjI)
qed

section \<open>The error of the traversal\<close>

lemma Normalize_over_Walk:
  "Normalize_over Walk pf stmt bindVars0 prefix = Normalize pf stmt bindVars0 prefix"
  by (simp add: Normalize_over_def Normalize_def Normalize_run_def
      split: option.splits sum.splits prod.splits)





section \<open>Walks over objects\<close>

lemma cell_of_Val [simp]: "cell_of h' (ValCell a) = cell_of h (ValCell a) \<longleftrightarrow> sqlvals h' a = sqlvals h a"
  by (cases "sqlvals h' a"; cases "sqlvals h a") auto

lemma cell_of_Cmp [simp]: "cell_of h' (CmpCell a) = cell_of h (CmpCell a) \<longleftrightarrow> comparisons h' a = comparisons h a"
  by (cases "comparisons h' a"; cases "comparisons h a") auto

lemma frame:
  "reprs h n e \<Longrightarrow> (\<forall>c \<in> set (cells h n e). cell_of h' c = cell_of h c)
     \<Longrightarrow> reprs h' n e \<and> cells h' n e = cells h n e"
  "reprs_list h ns es \<Longrightarrow> (\<forall>c \<in> set (cells_list h ns es). cell_of h' c = cell_of h c)
     \<Longrightarrow> reprs_list h' ns es \<and> cells_list h' ns es = cells_list h ns es"
  by (induction h n e and h ns es rule: reprs_reprs_list.induct)
     (auto split: Expr.splits option.splits list.splits)

lemma reprs_list_length: "reprs_list h ns es \<Longrightarrow> length es = length ns"
  by (induction ns arbitrary: es) (auto split: list.splits)

lemma reprs_children:
  "reprs h n e \<Longrightarrow> reprs_list h (children n) (hchildren h e)
     \<and> cells h n e = root e @ cells_list h (children n) (hchildren h e)"
  by (cases n; cases e) (auto simp: hchildren_def split: option.splits)

lemma reprs_with_children:
  assumes "reprs h n e" and "\<forall>c \<in> set (root e). cell_of h2 c = cell_of h c"
    and "reprs_list h2 cs (hchildren h e)"
  shows "reprs h2 (with_children n cs) e
     \<and> cells h2 (with_children n cs) e = root e @ cells_list h2 cs (hchildren h e)"
proof -
  from assms(1) have "reprs_list h (children n) (hchildren h e)" by (simp add: reprs_children)
  then have "length (hchildren h e) = length (children n)" by (rule reprs_list_length)
  moreover from assms(3) have "length (hchildren h e) = length cs" by (rule reprs_list_length)
  ultimately have len: "length cs = length (children n)" by simp
  show ?thesis
  proof (cases n)
    case (SQLVal t v)
    with assms len show ?thesis by (cases e) (auto simp: hchildren_def)
  next
    case (ComparisonExpr operator left right)
    with len obtain l' r' where cs: "cs = [l', r']"
      by (cases cs; cases "tl cs") auto
    with assms ComparisonExpr show ?thesis
      by (cases e) (auto simp: hchildren_def split: option.splits)
  next
    case (ValTuple exprs)
    with assms show ?thesis by (cases e) (auto simp: hchildren_def)
  next
    case (ListArg v)
    with assms len show ?thesis by (cases e) (auto simp: hchildren_def)
  next
    case (Other kind nodes)
    with assms show ?thesis by (cases e) (auto simp: hchildren_def)
  qed
qed

lemma mod_within_refl: "mod_within C h h"
  by (simp add: mod_within_def)

lemma mod_within_trans:
  "mod_within A h h1 \<Longrightarrow> mod_within B h1 h2 \<Longrightarrow> A \<subseteq> C \<Longrightarrow> B \<subseteq> C \<Longrightarrow> mod_within C h h2"
  unfolding mod_within_def by (metis subsetD)

lemma mod_within_frame:
  "mod_within A h h' \<Longrightarrow> reprs h n e \<Longrightarrow> A \<inter> set (cells h n e) = {}
     \<Longrightarrow> reprs h' n e \<and> cells h' n e = cells h n e"
  by (rule frame) (auto simp: mod_within_def)

lemma mod_within_frame_list:
  "mod_within A h h' \<Longrightarrow> reprs_list h ns es \<Longrightarrow> A \<inter> set (cells_list h ns es) = {}
     \<Longrightarrow> reprs_list h' ns es \<and> cells_list h' ns es = cells_list h ns es"
  by (rule frame) (auto simp: mod_within_def)

lemma root_cells: "reprs h n e \<Longrightarrow> set (root e) \<subseteq> set (cells h n e)"
  using reprs_children [of h n e] by auto

lemma distinct_root: "distinct (root e)"
  by (cases e) simp_all

text \<open>A node after its callback and the walk of its children.\<close>

lemma kept_node:
  assumes r: "reprs h n e"
    and v: "reprs h1 n' e" "set (cells h1 n' e) \<subseteq> set (cells h n e)" "distinct (cells h1 n' e)"
      "mod_within (set (root e)) h h1"
    and c: "kept_list h1 (children n') (hchildren h1 e) h2 cs"
  shows "kept h n e h2 (with_children n' cs)"
proof -
  let ?C1 = "cells_list h1 (children n') (hchildren h1 e)"
  from reprs_children [OF v(1)] have
    ch: "reprs_list h1 (children n') (hchildren h1 e)" and
    ce: "cells h1 n' e = root e @ ?C1" by simp_all
  from c have c1: "reprs_list h2 cs (hchildren h1 e)"
    and c2: "set (cells_list h2 cs (hchildren h1 e)) \<subseteq> set ?C1"
    and c3: "distinct (cells_list h2 cs (hchildren h1 e))"
    and c4: "mod_within (set ?C1) h1 h2" by (simp_all add: kept_list_def)
  from v(3) ce have disj: "set (root e) \<inter> set ?C1 = {}" by simp
  with c4 have "\<forall>c \<in> set (root e). cell_of h2 c = cell_of h1 c"
    by (auto simp: mod_within_def)
  from reprs_with_children [OF v(1) this c1] have
    w1: "reprs h2 (with_children n' cs) e" and
    w2: "cells h2 (with_children n' cs) e = root e @ cells_list h2 cs (hchildren h1 e)"
    by simp_all
  have sub: "set (cells h2 (with_children n' cs) e) \<subseteq> set (cells h n e)"
    using w2 c2 ce v(2) by auto
  have dist: "distinct (cells h2 (with_children n' cs) e)"
    using w2 c3 c2 disj distinct_root [of e] by auto
  have "set ?C1 \<subseteq> set (cells h n e)" using ce v(2) by auto
  with v(4) c4 root_cells [OF r] have "mod_within (set (cells h n e)) h h2"
    by (blast intro: mod_within_trans)
  with w1 sub dist show ?thesis by (simp add: kept_def)
qed

lemma kept_list_refl: "reprs_list h ns es \<Longrightarrow> distinct (cells_list h ns es) \<Longrightarrow> kept_list h ns es h ns"
  by (simp add: kept_list_def mod_within_refl)

text \<open>A node and the nodes after it.\<close>

lemma kept_Cons:
  assumes d: "distinct (cells h n e @ cells_list h ns es)"
    and rl: "reprs_list h ns es"
    and k: "kept h n e h2 n2"
    and kl: "\<And>h'. reprs_list h2 ns es \<Longrightarrow> cells_list h2 ns es = cells_list h ns es
               \<Longrightarrow> kept_list h2 ns es h3 ns'"
  shows "kept_list h (n # ns) (e # es) h3 (n2 # ns')"
proof -
  from k have k1: "reprs h2 n2 e" and k2: "set (cells h2 n2 e) \<subseteq> set (cells h n e)"
    and k3: "distinct (cells h2 n2 e)" and k4: "mod_within (set (cells h n e)) h h2"
    by (simp_all add: kept_def)
  from d have disj: "set (cells h n e) \<inter> set (cells_list h ns es) = {}" by simp
  from mod_within_frame_list [OF k4 rl disj] have
    f1: "reprs_list h2 ns es" and f2: "cells_list h2 ns es = cells_list h ns es" by simp_all
  from kl [OF f1 f2] have l1: "reprs_list h3 ns' es"
    and l2: "set (cells_list h3 ns' es) \<subseteq> set (cells_list h ns es)"
    and l3: "distinct (cells_list h3 ns' es)"
    and l4: "mod_within (set (cells_list h ns es)) h2 h3"
    by (simp_all add: kept_list_def f2)
  have "set (cells_list h ns es) \<inter> set (cells h2 n2 e) = {}" using disj k2 by auto
  from mod_within_frame [OF l4 k1 this] have
    g1: "reprs h3 n2 e" and g2: "cells h3 n2 e = cells h2 n2 e" by simp_all
  have m: "mod_within (set (cells h n e) \<union> set (cells_list h ns es)) h h3"
    using k4 l4 by (rule mod_within_trans) auto
  show ?thesis
    using g1 g2 l1 l2 l3 k2 k3 disj m by (auto simp: kept_list_def)
qed

lemma Walk_heap_Nil: "Walk_heap visit [] h s = Some (Inr (None, h, s))"
  by (subst Walk_heap.simps) simp

lemma Walk_heap_Cons:
  "Walk_heap visit (node # rest) h s =
          (case visit node h s of
             Inl p \<Rightarrow> Some (Inl p)
           | Inr (kontinue, err, h1, s1) \<Rightarrow>
               (case err of
                  Some e \<Rightarrow> Some (Inr (Some e, h1, s1))
                | None \<Rightarrow>
                    Option.bind
                      (if kontinue then Walk_heap visit (hchildren h1 node) h1 s1
                       else Some (Inr (None, h1, s1)))
                      (\<lambda>sub. case sub of
                         Inl p \<Rightarrow> Some (Inl p)
                       | Inr (err2, h2, s2) \<Rightarrow>
                           (case err2 of
                              Some e \<Rightarrow> Some (Inr (Some e, h2, s2))
                            | None \<Rightarrow> Walk_heap visit rest h2 s2))))"
  by (subst Walk_heap.simps) simp

lemma simulatesD:
  assumes "simulates visit hvisit" "reprs h n e" "distinct (cells h n e)"
  shows "visit n s = Inl f \<Longrightarrow> hvisit e h s = Inl (SlicePanic f)"
    and "visit n s = Inr (kontinue, err, n', s1) \<Longrightarrow>
         \<exists>h1. hvisit e h s = Inr (kontinue, err, h1, s1)
           \<and> reprs h1 n' e \<and> set (cells h1 n' e) \<subseteq> set (cells h n e)
           \<and> distinct (cells h1 n' e) \<and> mod_within (set (root e)) h h1"
proof -
  from assms have c: "case visit n s of
           Inl f \<Rightarrow> hvisit e h s = Inl (SlicePanic f)
         | Inr (kontinue, err, n', s1) \<Rightarrow>
             (\<exists>h1. hvisit e h s = Inr (kontinue, err, h1, s1)
                \<and> reprs h1 n' e \<and> set (cells h1 n' e) \<subseteq> set (cells h n e)
                \<and> distinct (cells h1 n' e) \<and> mod_within (set (root e)) h h1)"
    unfolding simulates_def by blast
  show "visit n s = Inl f \<Longrightarrow> hvisit e h s = Inl (SlicePanic f)"
    using c by simp
  show "visit n s = Inr (kontinue, err, n', s1) \<Longrightarrow>
         \<exists>h1. hvisit e h s = Inr (kontinue, err, h1, s1)
           \<and> reprs h1 n' e \<and> set (cells h1 n' e) \<subseteq> set (cells h n e)
           \<and> distinct (cells h1 n' e) \<and> mod_within (set (root e)) h h1"
    using c by simp
qed

lemma Walk_heap_simulates_aux:
  assumes sim: "simulates visit hvisit"
    and w: "Walk visit0 ns s = Some r"
  shows "visit0 = visit \<longrightarrow> (\<forall>h es. reprs_list h ns es \<longrightarrow> distinct (cells_list h ns es)
           \<longrightarrow> same_result h ns es r (Walk_heap hvisit es h s))"
proof (rule Walk.raw_induct
    [where P = "\<lambda>visit0 ns s r. visit0 = visit \<longrightarrow> (\<forall>h es. reprs_list h ns es
        \<longrightarrow> distinct (cells_list h ns es)
        \<longrightarrow> same_result h ns es r (Walk_heap hvisit es h s))", OF _ w])
  fix W :: "'a Visit \<Rightarrow> SQLNode list \<Rightarrow> 'a \<Rightarrow> (fault + (error option \<times> SQLNode list \<times> 'a)) option"
    and visit0 :: "'a Visit" and ns s r
  assume IH: "\<And>visit0 ns s r. W visit0 ns s = Some r \<Longrightarrow>
      visit0 = visit \<longrightarrow> (\<forall>h es. reprs_list h ns es \<longrightarrow> distinct (cells_list h ns es)
        \<longrightarrow> same_result h ns es r (Walk_heap hvisit es h s))"
  assume body: "(case ns of
        [] \<Rightarrow> Some (Inr (None, [], s))
      | node # rest \<Rightarrow>
          (case visit0 node s of
             Inl f \<Rightarrow> Some (Inl f)
           | Inr (kontinue, err, node', s1) \<Rightarrow>
               (case err of
                  Some e \<Rightarrow> Some (Inr (Some e, node' # rest, s1))
                | None \<Rightarrow>
                    Option.bind
                      (if kontinue then W visit0 (children node') s1
                       else Some (Inr (None, children node', s1)))
                      (\<lambda>sub. case sub of
                         Inl f \<Rightarrow> Some (Inl f)
                       | Inr (err2, cs, s2) \<Rightarrow>
                           (case err2 of
                              Some e \<Rightarrow> Some (Inr (Some e, with_children node' cs # rest, s2))
                            | None \<Rightarrow>
                                Option.bind (W visit0 rest s2)
                                  (\<lambda>tl. case tl of
                                     Inl f \<Rightarrow> Some (Inl f)
                                   | Inr (err3, rest', s3) \<Rightarrow>
                                       Some (Inr (err3, with_children node' cs # rest', s3)))))))) = Some r"
  show "visit0 = visit \<longrightarrow> (\<forall>h es. reprs_list h ns es \<longrightarrow> distinct (cells_list h ns es)
        \<longrightarrow> same_result h ns es r (Walk_heap hvisit es h s))"
  proof (intro impI allI)
    fix h es
    assume v0: "visit0 = visit" and rl: "reprs_list h ns es" and d: "distinct (cells_list h ns es)"
    show "same_result h ns es r (Walk_heap hvisit es h s)"
    proof (cases ns)
      case Nil
      with body rl d show ?thesis
        by (auto simp: same_result_def Walk_heap_Nil kept_list_def mod_within_refl)
    next
      case (Cons n rest)
      with rl obtain e erest where es: "es = e # erest" and re: "reprs h n e"
        and rr: "reprs_list h rest erest" by (auto split: list.splits)
      from d Cons es have dn: "distinct (cells h n e)" and dr: "distinct (cells_list h rest erest)"
        and dd: "distinct (cells h n e @ cells_list h rest erest)" by simp_all
      show ?thesis
      proof (cases "visit n s")
        case (Inl f)
        with body Cons v0 have "r = Inl f" by simp
        moreover from simulatesD(1) [OF sim re dn Inl] have "hvisit e h s = Inl (SlicePanic f)" .
        ultimately show ?thesis by (simp add: same_result_def es Walk_heap_Cons)
      next
        case (Inr x)
        then obtain k err n' s1 where v: "visit n s = Inr (k, err, n', s1)" by (cases x) auto
        from simulatesD(2) [OF sim re dn v] obtain h1 where
          hv: "hvisit e h s = Inr (k, err, h1, s1)" and
          v1: "reprs h1 n' e" and v2: "set (cells h1 n' e) \<subseteq> set (cells h n e)" and
          v3: "distinct (cells h1 n' e)" and v4: "mod_within (set (root e)) h h1" by blast
        have rest_refl: "\<And>h2. reprs_list h2 rest erest \<Longrightarrow> cells_list h2 rest erest = cells_list h rest erest
            \<Longrightarrow> kept_list h2 rest erest h2 rest"
          using dr by (simp add: kept_list_refl)
        show ?thesis
        proof (cases err)
          case (Some e0)
          with body Cons v0 v have r: "r = Inr (Some e0, n' # rest, s1)" by simp
          have "mod_within (set (cells h n e)) h h1"
            using v4 mod_within_refl root_cells [OF re] by (blast intro: mod_within_trans)
          with v1 v2 v3 have "kept h n e h1 n'" by (simp add: kept_def)
          from kept_Cons [OF dd rr this rest_refl]
          have "kept_list h (n # rest) (e # erest) h1 (n' # rest)" by simp
          with r hv Some show ?thesis
            by (simp add: same_result_def es Cons Walk_heap_Cons)
        next
          case None
          from reprs_children [OF v1] have
            ch: "reprs_list h1 (children n') (hchildren h1 e)" and
            ce: "cells h1 n' e = root e @ cells_list h1 (children n') (hchildren h1 e)" by simp_all
          from v3 ce have dc: "distinct (cells_list h1 (children n') (hchildren h1 e))" by simp
          let ?sub = "if k then W visit (children n') s1 else Some (Inr (None, children n', s1))"
          let ?hsub = "if k then Walk_heap hvisit (hchildren h1 e) h1 s1 else Some (Inr (None, h1, s1))"
          from body Cons v0 v None obtain sub where subeq: "?sub = Some sub"
            and cont: "(case sub of
                         Inl f \<Rightarrow> Some (Inl f)
                       | Inr (err2, cs, s2) \<Rightarrow>
                           (case err2 of
                              Some e \<Rightarrow> Some (Inr (Some e, with_children n' cs # rest, s2))
                            | None \<Rightarrow>
                                Option.bind (W visit rest s2)
                                  (\<lambda>tl. case tl of
                                     Inl f \<Rightarrow> Some (Inl f)
                                   | Inr (err3, rest', s3) \<Rightarrow>
                                       Some (Inr (err3, with_children n' cs # rest', s3))))) = Some r"
            by (auto simp: bind_eq_Some_conv)
          have subres: "same_result h1 (children n') (hchildren h1 e) sub ?hsub"
          proof (cases k)
            case True
            with subeq have "W visit (children n') s1 = Some sub" by simp
            from IH [OF this] ch dc True show ?thesis by simp
          next
            case False
            with subeq have "sub = Inr (None, children n', s1)" by simp
            with False ch dc show ?thesis by (simp add: same_result_def kept_list_refl)
          qed
          have whole: "Walk_heap hvisit (e # erest) h s =
              Option.bind ?hsub
                      (\<lambda>sub. case sub of
                         Inl p \<Rightarrow> Some (Inl p)
                       | Inr (err2, h2, s2) \<Rightarrow>
                           (case err2 of
                              Some e \<Rightarrow> Some (Inr (Some e, h2, s2))
                            | None \<Rightarrow> Walk_heap hvisit erest h2 s2))"
            by (simp add: Walk_heap_Cons hv None)
          show ?thesis
          proof (cases sub)
            case (Inl f)
            with cont have "r = Inl f" by simp
            moreover from subres Inl have "?hsub = Some (Inl (SlicePanic f))"
              by (simp add: same_result_def)
            ultimately show ?thesis by (simp add: same_result_def es whole)
          next
            case (Inr y)
            then obtain err2 cs s2 where sub: "sub = Inr (err2, cs, s2)" by (cases y) auto
            from subres sub obtain h2 where
              hs: "?hsub = Some (Inr (err2, h2, s2))" and
              kc: "kept_list h1 (children n') (hchildren h1 e) h2 cs"
              by (auto simp: same_result_def)
            from kept_node [OF re v1 v2 v3 v4 kc] have kn: "kept h n e h2 (with_children n' cs)" .
            show ?thesis
            proof (cases err2)
              case (Some e0)
              with cont sub have r: "r = Inr (Some e0, with_children n' cs # rest, s2)" by simp
              from kept_Cons [OF dd rr kn rest_refl]
              have "kept_list h (n # rest) (e # erest) h2 (with_children n' cs # rest)" by simp
              with r hs Some show ?thesis
                by (simp add: same_result_def es Cons whole)
            next
              case None
              with cont sub obtain tl where tleq: "W visit rest s2 = Some tl"
                and tcont: "(case tl of
                                     Inl f \<Rightarrow> Some (Inl f)
                                   | Inr (err3, rest', s3) \<Rightarrow>
                                       Some (Inr (err3, with_children n' cs # rest', s3))) = Some r"
                by (auto simp: bind_eq_Some_conv)
              from kn have k4: "mod_within (set (cells h n e)) h h2" by (simp add: kept_def)
              from dd have "set (cells h n e) \<inter> set (cells_list h rest erest) = {}" by simp
              from mod_within_frame_list [OF k4 rr this] have
                f1: "reprs_list h2 rest erest" and
                f2: "cells_list h2 rest erest = cells_list h rest erest" by simp_all
              from IH [OF tleq] f1 f2 dr have
                tres: "same_result h2 rest erest tl (Walk_heap hvisit erest h2 s2)" by simp
              have whole2: "Walk_heap hvisit (e # erest) h s = Walk_heap hvisit erest h2 s2"
                by (simp add: whole hs None)
              show ?thesis
              proof (cases tl)
                case (Inl f)
                with tcont have "r = Inl f" by simp
                with tres Inl show ?thesis by (simp add: same_result_def es whole2)
              next
                case (Inr z)
                then obtain err3 rest' s3 where tl: "tl = Inr (err3, rest', s3)" by (cases z) auto
                with tcont have r: "r = Inr (err3, with_children n' cs # rest', s3)" by simp
                from tres tl obtain h3 where
                  h3: "Walk_heap hvisit erest h2 s2 = Some (Inr (err3, h3, s3))" and
                  k3: "kept_list h2 rest erest h3 rest'" by (auto simp: same_result_def)
                from kept_Cons [OF dd rr kn] k3
                have "kept_list h (n # rest) (e # erest) h3 (with_children n' cs # rest')" by simp
                with r h3 show ?thesis by (simp add: same_result_def es Cons whole2)
              qed
            qed
          qed
        qed
      qed
    qed
  qed
qed

lemma Walk_heap_simulates:
  assumes "simulates visit hvisit" and "Walk visit ns s = Some r"
    and "reprs_list h ns es" and "distinct (cells_list h ns es)"
  shows "same_result h ns es r (Walk_heap hvisit es h s)"
  using Walk_heap_simulates_aux [OF assms(1,2)] assms(3,4) by simp

section \<open>The callbacks on objects\<close>

lemma simulates_GetBindvars: "simulates GetBindvars_visit GetBindvars_heap_visit"
  unfolding simulates_def
proof (intro allI impI)
  fix n e h and s :: "string fset"
  assume "reprs h n e \<and> distinct (cells h n e)"
  then show "case GetBindvars_visit n s of
           Inl f \<Rightarrow> GetBindvars_heap_visit e h s = Inl (SlicePanic f)
         | Inr (kontinue, err, n', s1) \<Rightarrow>
             (\<exists>h1. GetBindvars_heap_visit e h s = Inr (kontinue, err, h1, s1)
                \<and> reprs h1 n' e \<and> set (cells h1 n' e) \<subseteq> set (cells h n e)
                \<and> distinct (cells h1 n' e) \<and> mod_within (set (root e)) h h1)"
    by (cases n; cases e)
       (auto simp: GetBindvars_visit_def GetBindvars_heap_visit_def mod_within_refl
             split: option.splits)
qed

lemma sqlToBindvar_heap_reprs: "reprs h n e \<Longrightarrow> sqlToBindvar_heap pf h e = Inr (sqlToBindvar pf n)"
  by (cases n; cases e) (auto simp: sqlToBindvar_heap_def sqlToBindvar_def split: option.splits)

lemma tuple_values_heap_reprs:
  "reprs_list h ns es \<Longrightarrow> tuple_values_heap pf h es acc = Inr (tuple_values pf ns acc)"
proof (induction ns arbitrary: es acc)
  case Nil
  then show ?case by simp
next
  case (Cons n ns)
  then obtain e es' where es: "es = e # es'" and r: "reprs h n e" and rl: "reprs_list h ns es'"
    by (auto split: list.splits)
  show ?case
    by (simp add: es sqlToBindvar_heap_reprs [OF r] Cons.IH [OF rl] split: option.splits)
qed

lemma mod_within_sqlvals:
  "mod_within {ValCell a} h (h\<lparr>sqlvals := (sqlvals h)(a \<mapsto> x)\<rparr>)"
  unfolding mod_within_def
proof (intro allI impI)
  fix c assume "c \<notin> {ValCell a}"
  then show "cell_of (h\<lparr>sqlvals := (sqlvals h)(a \<mapsto> x)\<rparr>) c = cell_of h c"
    by (cases c) auto
qed

lemma mod_within_comparisons:
  "mod_within {CmpCell a} h (h\<lparr>comparisons := (comparisons h)(a \<mapsto> x)\<rparr>)"
  unfolding mod_within_def
proof (intro allI impI)
  fix c assume "c \<notin> {CmpCell a}"
  then show "cell_of (h\<lparr>comparisons := (comparisons h)(a \<mapsto> x)\<rparr>) c = cell_of h c"
    by (cases c) auto
qed

lemma simulates_Normalize:
  "simulates (Normalize_visit pf prefix) (Normalize_heap_visit pf prefix)"
  unfolding simulates_def
proof (intro allI impI)
  fix n e h and s :: nstate
  assume a: "reprs h n e \<and> distinct (cells h n e)"
  then have r: "reprs h n e" and d: "distinct (cells h n e)" by simp_all
  let ?goal = "case Normalize_visit pf prefix n s of
           Inl f \<Rightarrow> Normalize_heap_visit pf prefix e h s = Inl (SlicePanic f)
         | Inr (kontinue, err, n', s1) \<Rightarrow>
             (\<exists>h1. Normalize_heap_visit pf prefix e h s = Inr (kontinue, err, h1, s1)
                \<and> reprs h1 n' e \<and> set (cells h1 n' e) \<subseteq> set (cells h n e)
                \<and> distinct (cells h1 n' e) \<and> mod_within (set (root e)) h h1)"
  show ?goal
  proof (cases n)
    case (SQLVal t v)
    with r obtain a where e: "e = ValRef a" and c: "sqlvals h a = Some (t, v)"
      by (cases e) auto
    show ?thesis
      using mod_within_sqlvals [of a h]
      by (auto simp: SQLVal e c Normalize_visit_def Normalize_heap_visit_def Let_def
            mod_within_refl split: option.splits prod.splits)
  next
    case (ComparisonExpr operator left right)
    note nform = ComparisonExpr
    with r obtain a l r' where e: "e = CmpRef a" and c: "comparisons h a = Some (operator, l, r')"
      and rl: "reprs h left l" and rr: "reprs h right r'"
      by (cases e) (auto split: option.splits)
    from d ComparisonExpr e c have nl: "CmpCell a \<notin> set (cells h left l)"
      and dl: "distinct (cells h left l)" by simp_all
    show ?thesis
    proof (cases "operator \<noteq> InStr \<and> operator \<noteq> NotInStr")
      case True
      with r d show ?thesis
        by (auto simp: ComparisonExpr e c Normalize_visit_def Normalize_heap_visit_def mod_within_refl)
    next
      case False
      show ?thesis
      proof (cases right)
        case (ValTuple tupleVals)
        with rr obtain es where r': "r' = TupleOf es" and rt: "reprs_list h tupleVals es"
          by (cases r') auto
        show ?thesis
        proof (cases "tuple_values pf tupleVals []")
          case None
          with r d False show ?thesis
            by (auto simp: ComparisonExpr e c ValTuple r' Normalize_visit_def Normalize_heap_visit_def
                  tuple_values_heap_reprs [OF rt] mod_within_refl)
        next
          case (Some bvalues)
          obtain bvname counter' reserved' where
            nn: "newName prefix (counter s) (reserved s) = (bvname, counter', reserved')"
            by (cases "newName prefix (counter s) (reserved s)") auto
          let ?h1 = "h\<lparr>comparisons := (comparisons h)
                         (a \<mapsto> (operator, l, ListArgOf (''::'' @ bvname)))\<rparr>"
          have m: "mod_within {CmpCell a} h ?h1" by (rule mod_within_comparisons)
          have "{CmpCell a} \<inter> set (cells h left l) = {}" using nl by simp
          from mod_within_frame [OF m rl this] have
            l1: "reprs ?h1 left l" and l2: "cells ?h1 left l = cells h left l" by simp_all
          show ?thesis
            using False m l1 l2 dl nl
            by (auto simp: ComparisonExpr e c ValTuple r' Normalize_visit_def Normalize_heap_visit_def
                  tuple_values_heap_reprs [OF rt] Some nn)
        qed
      next
        case (SQLVal t v)
        with r d rr False show ?thesis
          by (cases r')
             (auto simp: ComparisonExpr e c Normalize_visit_def Normalize_heap_visit_def mod_within_refl)
      next
        case (ComparisonExpr o2 l2 r2)
        with r d rr False show ?thesis
          by (cases r')
             (auto simp: nform e c Normalize_visit_def Normalize_heap_visit_def mod_within_refl
                split: option.splits)
      next
        case (ListArg v)
        with r d rr False show ?thesis
          by (cases r')
             (auto simp: ComparisonExpr e c Normalize_visit_def Normalize_heap_visit_def mod_within_refl)
      next
        case (Other kind nodes)
        with r d rr False show ?thesis
          by (cases r')
             (auto simp: ComparisonExpr e c Normalize_visit_def Normalize_heap_visit_def mod_within_refl)
      qed
    qed
  next
    case (ValTuple exprs)
    with r d show ?thesis
      by (cases e) (auto simp: Normalize_visit_def Normalize_heap_visit_def mod_within_refl)
  next
    case (ListArg v)
    with r d show ?thesis
      by (cases e) (auto simp: Normalize_visit_def Normalize_heap_visit_def mod_within_refl)
  next
    case (Other kind nodes)
    with r d show ?thesis
      by (cases e) (auto simp: Normalize_visit_def Normalize_heap_visit_def mod_within_refl)
  qed
qed

section \<open>Determinism\<close>

text \<open>
  On a statement without shared objects the run on the graph does what the run on the
  tree does.
\<close>

lemma GetBindvars_heap_panics:
  assumes "reprs h t e" "distinct (cells h t e)" "truncated t"
  shows "GetBindvars_heap h e = Some (Inl (SlicePanic SliceBoundsOutOfRange))"
proof -
  from assms(3) have "Walk GetBindvars_visit [t] {||} = Some (Inl SliceBoundsOutOfRange)"
    by (intro scan_faults) simp
  from Walk_heap_simulates [OF simulates_GetBindvars this, of h "[e]"] assms(1,2)
  show ?thesis by (simp add: same_result_def GetBindvars_heap_def)
qed

lemma GetBindvars_heap_returns:
  assumes "reprs h t e" "distinct (cells h t e)" "GetBindvars t = Some (Inr ([t], names))"
  shows "\<exists>h1. GetBindvars_heap h e = Some (Inr (h1, names)) \<and> reprs h1 t e \<and> distinct (cells h1 t e)"
proof -
  from assms(3) obtain err where w: "Walk GetBindvars_visit [t] {||} = Some (Inr (err, [t], names))"
    by (auto simp: GetBindvars_def split: option.splits sum.splits)
  from Walk_heap_simulates [OF simulates_GetBindvars w, of h "[e]"] assms(1,2)
  obtain h1 where "Walk_heap GetBindvars_heap_visit [e] h {||} = Some (Inr (err, h1, names))"
    and "kept_list h [t] [e] h1 [t]" by (auto simp: same_result_def)
  then show ?thesis by (auto simp: GetBindvars_heap_def kept_list_def)
qed

lemma Normalize_heap_panics:
  assumes "reprs h t e" "distinct (cells h t e)" "truncated t"
  shows "Normalize_heap pf h e bindVars0 prefix = Some (Inl (SlicePanic SliceBoundsOutOfRange))"
  by (simp add: Normalize_heap_def GetBindvars_heap_panics [OF assms])

lemma Normalize_heap_returns:
  assumes r: "reprs h t e" and d: "distinct (cells h t e)" and nt: "\<not> truncated t"
  shows "\<exists>t' st' h'. Normalize_run pf t bindVars0 prefix = Some (Inr (None, [t'], st'))
     \<and> Normalize_heap pf h e bindVars0 prefix = Some (Inr (h', bindVars st'))
     \<and> reprs h' t' e \<and> distinct (cells h' t' e)"
proof -
  from run_walks [OF nt, of pf prefix bindVars0] obtain reserved0 t' st' where
    g: "GetBindvars t = Some (Inr ([t], reserved0))" and
    w: "walks (Normalize_visit pf prefix) [t]
         \<lparr>reserved = reserved0, counter = 1, vals = Map.empty, bindVars = bindVars0\<rparr> [t'] st'" and
    n: "Normalize_run pf t bindVars0 prefix = Some (Inr (None, [t'], st'))" by metis
  from GetBindvars_heap_returns [OF r d g] obtain h1 where
    g1: "GetBindvars_heap h e = Some (Inr (h1, reserved0))" and
    r1: "reprs h1 t e" and d1: "distinct (cells h1 t e)" by blast
  from Walk_heap_simulates [OF simulates_Normalize walks_Walk [OF w], of h1 "[e]"] r1 d1
  obtain h2 where
    w2: "Walk_heap (Normalize_heap_visit pf prefix) [e] h1
          \<lparr>reserved = reserved0, counter = 1, vals = Map.empty, bindVars = bindVars0\<rparr>
         = Some (Inr (None, h2, st'))" and
    k2: "kept_list h1 [t] [e] h2 [t']" by (auto simp: same_result_def)
  from k2 have "reprs h2 t' e \<and> distinct (cells h2 t' e)" by (simp add: kept_list_def)
  with n g1 w2 show ?thesis by (auto simp: Normalize_heap_def)
qed

lemmas heap_run_simps = Normalize_heap_def GetBindvars_heap_def Walk_heap_Cons Walk_heap_Nil
  GetBindvars_heap_visit_def Normalize_heap_visit_def hchildren_def sqlToBindvar_heap_def
  sqlToBindvar_def NewValue_def ValueBindVariable_def dedup_key_def InStr_def NotInStr_def

text \<open>
  C10, as the spec states it, fails when an object is shared. The two statements below
  are structurally equal: both read \<^verbatim>\<open>a IN (1) AND a IN (1)\<close>. In the first the two
  comparisons are two objects; in the second one comparison object stands at both places.
  With equal (empty) maps and the same prefix, the first run rewrites the comparisons to
  \<^verbatim>\<open>::v1\<close> and \<^verbatim>\<open>::v2\<close> and binds both names. The second run rewrites the one object to
  \<^verbatim>\<open>::v1\<close> at its first visit and finds no tuple at its second visit: both places read
  \<^verbatim>\<open>::v1\<close>, and only \<^verbatim>\<open>v1\<close> is bound. The resulting statements are not structurally
  equal and the resulting maps are not equal.
\<close>

theorem shared_comparison_counterexample:
  "reprs \<lparr>sqlvals = [20 \<mapsto> (IntVal, ''1''), 21 \<mapsto> (IntVal, ''1'')],
          comparisons = [10 \<mapsto> (''in'', OtherOf ''a'' [], TupleOf [ValRef 20]),
                         11 \<mapsto> (''in'', OtherOf ''a'' [], TupleOf [ValRef 21])]\<rparr>
     (Other ''and'' [ComparisonExpr ''in'' (Other ''a'' []) (ValTuple [SQLVal IntVal ''1'']),
                     ComparisonExpr ''in'' (Other ''a'' []) (ValTuple [SQLVal IntVal ''1''])])
     (OtherOf ''and'' [CmpRef 10, CmpRef 11])
   \<and> reprs \<lparr>sqlvals = [20 \<mapsto> (IntVal, ''1'')],
          comparisons = [10 \<mapsto> (''in'', OtherOf ''a'' [], TupleOf [ValRef 20])]\<rparr>
     (Other ''and'' [ComparisonExpr ''in'' (Other ''a'' []) (ValTuple [SQLVal IntVal ''1'']),
                     ComparisonExpr ''in'' (Other ''a'' []) (ValTuple [SQLVal IntVal ''1''])])
     (OtherOf ''and'' [CmpRef 10, CmpRef 10])
   \<and> Normalize_heap (\<lambda>s. None :: unit option)
       \<lparr>sqlvals = [20 \<mapsto> (IntVal, ''1''), 21 \<mapsto> (IntVal, ''1'')],
        comparisons = [10 \<mapsto> (''in'', OtherOf ''a'' [], TupleOf [ValRef 20]),
                       11 \<mapsto> (''in'', OtherOf ''a'' [], TupleOf [ValRef 21])]\<rparr>
       (OtherOf ''and'' [CmpRef 10, CmpRef 11]) Map.empty ''v''
     = Some (Inr (\<lparr>sqlvals = [20 \<mapsto> (IntVal, ''1''), 21 \<mapsto> (IntVal, ''1'')],
                   comparisons = [10 \<mapsto> (''in'', OtherOf ''a'' [], ListArgOf ''::v1''),
                                  11 \<mapsto> (''in'', OtherOf ''a'' [], ListArgOf ''::v2'')]\<rparr>,
                  [''v1'' \<mapsto> \<lparr>Type = Type_TUPLE, Value = [], Values = [\<lparr>Type = Int64, Value = ''1''\<rparr>]\<rparr>,
                   ''v2'' \<mapsto> \<lparr>Type = Type_TUPLE, Value = [], Values = [\<lparr>Type = Int64, Value = ''1''\<rparr>]\<rparr>]))
   \<and> Normalize_heap (\<lambda>s. None :: unit option)
       \<lparr>sqlvals = [20 \<mapsto> (IntVal, ''1'')],
        comparisons = [10 \<mapsto> (''in'', OtherOf ''a'' [], TupleOf [ValRef 20])]\<rparr>
       (OtherOf ''and'' [CmpRef 10, CmpRef 10]) Map.empty ''v''
     = Some (Inr (\<lparr>sqlvals = [20 \<mapsto> (IntVal, ''1'')],
                   comparisons = [10 \<mapsto> (''in'', OtherOf ''a'' [], ListArgOf ''::v1'')]\<rparr>,
                  [''v1'' \<mapsto> \<lparr>Type = Type_TUPLE, Value = [], Values = [\<lparr>Type = Int64, Value = ''1''\<rparr>]\<rparr>]))
   \<and> reprs \<lparr>sqlvals = [20 \<mapsto> (IntVal, ''1''), 21 \<mapsto> (IntVal, ''1'')],
            comparisons = [10 \<mapsto> (''in'', OtherOf ''a'' [], ListArgOf ''::v1''),
                           11 \<mapsto> (''in'', OtherOf ''a'' [], ListArgOf ''::v2'')]\<rparr>
       (Other ''and'' [ComparisonExpr ''in'' (Other ''a'' []) (ListArg ''::v1''),
                       ComparisonExpr ''in'' (Other ''a'' []) (ListArg ''::v2'')])
       (OtherOf ''and'' [CmpRef 10, CmpRef 11])
   \<and> reprs \<lparr>sqlvals = [20 \<mapsto> (IntVal, ''1'')],
            comparisons = [10 \<mapsto> (''in'', OtherOf ''a'' [], ListArgOf ''::v1'')]\<rparr>
       (Other ''and'' [ComparisonExpr ''in'' (Other ''a'' []) (ListArg ''::v1''),
                       ComparisonExpr ''in'' (Other ''a'' []) (ListArg ''::v1'')])
       (OtherOf ''and'' [CmpRef 10, CmpRef 10])
   \<and> [''v1'' \<mapsto> \<lparr>Type = Type_TUPLE, Value = [], Values = [\<lparr>Type = Int64, Value = ''1''\<rparr>]\<rparr>,
       ''v2'' \<mapsto> \<lparr>Type = Type_TUPLE, Value = [], Values = [\<lparr>Type = Int64, Value = ''1''\<rparr>]\<rparr>]
      \<noteq> [''v1'' \<mapsto> \<lparr>Type = Type_TUPLE, Value = [], Values = [\<lparr>Type = Int64, Value = ''1''\<rparr>]\<rparr>]"
proof -
  have ne: "[''v1'' \<mapsto> \<lparr>Type = Type_TUPLE, Value = [], Values = [\<lparr>Type = Int64, Value = ''1''\<rparr>]\<rparr>,
       ''v2'' \<mapsto> \<lparr>Type = Type_TUPLE, Value = [], Values = [\<lparr>Type = Int64, Value = ''1''\<rparr>]\<rparr>]
      \<noteq> [''v1'' \<mapsto> \<lparr>Type = Type_TUPLE, Value = [], Values = [\<lparr>Type = Int64, Value = ''1''\<rparr>]\<rparr>]"
    by (auto dest!: fun_cong [of _ _ "''v2''"])
  show ?thesis
    by (intro conjI ne) (simp_all add: heap_run_simps ParseInt_1 newName_v1 newName_v2)
qed

text \<open>
  C10, amended. For every two runs of \<^verbatim>\<open>Normalize\<close> on structurally equal statements in each
  of which no literal object and no comparison object stands at two places, with equal
  initial maps and the same prefix, the runs end alike: both panic with the same panic,
  or both return, the resulting statements are structurally equal and the resulting maps
  are equal.
\<close>

theorem Normalize_heap_deterministic:
  assumes "reprs h1 stmt e1" and "distinct (cells h1 stmt e1)"
    and "reprs h2 stmt e2" and "distinct (cells h2 stmt e2)"
  shows "(\<exists>p. Normalize_heap pf h1 e1 bindVars0 prefix = Some (Inl p)
            \<and> Normalize_heap pf h2 e2 bindVars0 prefix = Some (Inl p))
     \<or> (\<exists>h1' h2' stmt' bindVars'.
            Normalize_heap pf h1 e1 bindVars0 prefix = Some (Inr (h1', bindVars'))
          \<and> Normalize_heap pf h2 e2 bindVars0 prefix = Some (Inr (h2', bindVars'))
          \<and> reprs h1' stmt' e1 \<and> reprs h2' stmt' e2)"
proof (cases "truncated stmt")
  case True
  from Normalize_heap_panics [OF assms(1,2) True] Normalize_heap_panics [OF assms(3,4) True]
  show ?thesis by blast
next
  case False
  from Normalize_heap_returns [OF assms(1,2) False, of pf bindVars0 prefix]
    Normalize_heap_returns [OF assms(3,4) False, of pf bindVars0 prefix]
  show ?thesis by (metis Inr_inject list.inject option.inject prod.inject)
qed

theorem Normalize_heap_deterministic_witness:
  "reprs \<lparr>sqlvals = [20 \<mapsto> (IntVal, ''1''), 21 \<mapsto> (IntVal, ''1'')],
          comparisons = [10 \<mapsto> (''in'', OtherOf ''a'' [], TupleOf [ValRef 20]),
                         11 \<mapsto> (''in'', OtherOf ''a'' [], TupleOf [ValRef 21])]\<rparr>
     (Other ''and'' [ComparisonExpr ''in'' (Other ''a'' []) (ValTuple [SQLVal IntVal ''1'']),
                     ComparisonExpr ''in'' (Other ''a'' []) (ValTuple [SQLVal IntVal ''1''])])
     (OtherOf ''and'' [CmpRef 10, CmpRef 11])
   \<and> distinct (cells \<lparr>sqlvals = [20 \<mapsto> (IntVal, ''1''), 21 \<mapsto> (IntVal, ''1'')],
          comparisons = [10 \<mapsto> (''in'', OtherOf ''a'' [], TupleOf [ValRef 20]),
                         11 \<mapsto> (''in'', OtherOf ''a'' [], TupleOf [ValRef 21])]\<rparr>
     (Other ''and'' [ComparisonExpr ''in'' (Other ''a'' []) (ValTuple [SQLVal IntVal ''1'']),
                     ComparisonExpr ''in'' (Other ''a'' []) (ValTuple [SQLVal IntVal ''1''])])
     (OtherOf ''and'' [CmpRef 10, CmpRef 11]))
   \<and> reprs \<lparr>sqlvals = [7 \<mapsto> (IntVal, ''1''), 5 \<mapsto> (IntVal, ''1'')],
          comparisons = [3 \<mapsto> (''in'', OtherOf ''a'' [], TupleOf [ValRef 5]),
                         4 \<mapsto> (''in'', OtherOf ''a'' [], TupleOf [ValRef 7])]\<rparr>
     (Other ''and'' [ComparisonExpr ''in'' (Other ''a'' []) (ValTuple [SQLVal IntVal ''1'']),
                     ComparisonExpr ''in'' (Other ''a'' []) (ValTuple [SQLVal IntVal ''1''])])
     (OtherOf ''and'' [CmpRef 3, CmpRef 4])
   \<and> distinct (cells \<lparr>sqlvals = [7 \<mapsto> (IntVal, ''1''), 5 \<mapsto> (IntVal, ''1'')],
          comparisons = [3 \<mapsto> (''in'', OtherOf ''a'' [], TupleOf [ValRef 5]),
                         4 \<mapsto> (''in'', OtherOf ''a'' [], TupleOf [ValRef 7])]\<rparr>
     (Other ''and'' [ComparisonExpr ''in'' (Other ''a'' []) (ValTuple [SQLVal IntVal ''1'']),
                     ComparisonExpr ''in'' (Other ''a'' []) (ValTuple [SQLVal IntVal ''1''])])
     (OtherOf ''and'' [CmpRef 3, CmpRef 4]))
   \<and> (\<exists>h1' h2' stmt' bindVars'.
        Normalize_heap (\<lambda>s. None :: unit option)
          \<lparr>sqlvals = [20 \<mapsto> (IntVal, ''1''), 21 \<mapsto> (IntVal, ''1'')],
           comparisons = [10 \<mapsto> (''in'', OtherOf ''a'' [], TupleOf [ValRef 20]),
                          11 \<mapsto> (''in'', OtherOf ''a'' [], TupleOf [ValRef 21])]\<rparr>
          (OtherOf ''and'' [CmpRef 10, CmpRef 11]) Map.empty ''v'' = Some (Inr (h1', bindVars'))
      \<and> Normalize_heap (\<lambda>s. None :: unit option)
          \<lparr>sqlvals = [7 \<mapsto> (IntVal, ''1''), 5 \<mapsto> (IntVal, ''1'')],
           comparisons = [3 \<mapsto> (''in'', OtherOf ''a'' [], TupleOf [ValRef 5]),
                          4 \<mapsto> (''in'', OtherOf ''a'' [], TupleOf [ValRef 7])]\<rparr>
          (OtherOf ''and'' [CmpRef 3, CmpRef 4]) Map.empty ''v'' = Some (Inr (h2', bindVars'))
      \<and> reprs h1' stmt' (OtherOf ''and'' [CmpRef 10, CmpRef 11])
      \<and> reprs h2' stmt' (OtherOf ''and'' [CmpRef 3, CmpRef 4]))"
proof -
  let ?t = "Other ''and'' [ComparisonExpr ''in'' (Other ''a'' []) (ValTuple [SQLVal IntVal ''1'']),
                     ComparisonExpr ''in'' (Other ''a'' []) (ValTuple [SQLVal IntVal ''1''])]"
  let ?h1 = "\<lparr>sqlvals = [20 \<mapsto> (IntVal, ''1''), 21 \<mapsto> (IntVal, ''1'')],
          comparisons = [10 \<mapsto> (''in'', OtherOf ''a'' [], TupleOf [ValRef 20]),
                         11 \<mapsto> (''in'', OtherOf ''a'' [], TupleOf [ValRef 21])]\<rparr>"
  let ?h2 = "\<lparr>sqlvals = [7 \<mapsto> (IntVal, ''1''), 5 \<mapsto> (IntVal, ''1'')],
          comparisons = [3 \<mapsto> (''in'', OtherOf ''a'' [], TupleOf [ValRef 5]),
                         4 \<mapsto> (''in'', OtherOf ''a'' [], TupleOf [ValRef 7])]\<rparr>"
  have r1: "reprs ?h1 ?t (OtherOf ''and'' [CmpRef 10, CmpRef 11])" by simp
  have d1: "distinct (cells ?h1 ?t (OtherOf ''and'' [CmpRef 10, CmpRef 11]))" by simp
  have r2: "reprs ?h2 ?t (OtherOf ''and'' [CmpRef 3, CmpRef 4])" by simp
  have d2: "distinct (cells ?h2 ?t (OtherOf ''and'' [CmpRef 3, CmpRef 4]))" by simp
  have run: "Normalize_heap (\<lambda>s. None :: unit option) ?h1
          (OtherOf ''and'' [CmpRef 10, CmpRef 11]) Map.empty ''v''
     = Some (Inr (\<lparr>sqlvals = [20 \<mapsto> (IntVal, ''1''), 21 \<mapsto> (IntVal, ''1'')],
                   comparisons = [10 \<mapsto> (''in'', OtherOf ''a'' [], ListArgOf ''::v1''),
                                  11 \<mapsto> (''in'', OtherOf ''a'' [], ListArgOf ''::v2'')]\<rparr>,
                  [''v1'' \<mapsto> \<lparr>Type = Type_TUPLE, Value = [], Values = [\<lparr>Type = Int64, Value = ''1''\<rparr>]\<rparr>,
                   ''v2'' \<mapsto> \<lparr>Type = Type_TUPLE, Value = [], Values = [\<lparr>Type = Int64, Value = ''1''\<rparr>]\<rparr>]))"
    by (simp add: heap_run_simps ParseInt_1 newName_v1 newName_v2)
  from Normalize_heap_deterministic [OF r1 d1 r2 d2, of "\<lambda>s. None :: unit option" Map.empty "''v''"]
  have "\<exists>h1' h2' stmt' bindVars'.
        Normalize_heap (\<lambda>s. None :: unit option) ?h1
          (OtherOf ''and'' [CmpRef 10, CmpRef 11]) Map.empty ''v'' = Some (Inr (h1', bindVars'))
      \<and> Normalize_heap (\<lambda>s. None :: unit option) ?h2
          (OtherOf ''and'' [CmpRef 3, CmpRef 4]) Map.empty ''v'' = Some (Inr (h2', bindVars'))
      \<and> reprs h1' stmt' (OtherOf ''and'' [CmpRef 10, CmpRef 11])
      \<and> reprs h2' stmt' (OtherOf ''and'' [CmpRef 3, CmpRef 4])"
    unfolding run by simp
  with r1 d1 r2 d2 show ?thesis by (intro conjI)
qed

end
